theory Spec2Isabelle
  imports Complex_Main "HOL-Library.Stream" "HOL-Library.AList"
begin

section \<open>Data model (src/utils/workflow\_models.py)\<close>

text \<open>
  Values held in the workflow memory are arbitrary Python values; the engine only ever
  tests them against \<open>None\<close> and copies them around.
\<close>

datatype pyval =
    PNone
  | PBool bool
  | PInt int
  | PStr string
  | PList "pyval list"
  | PDict "(string \<times> pyval) list"

datatype StepStatus = PENDING | RUNNING | COMPLETED | FAILED | SKIPPED | WAITING | CANCELLED

datatype WorkflowStatus =
  WF_RUNNING | WF_COMPLETED | WF_FAILED | WF_CANCELLED | WF_WAITING_HUMAN

text \<open>
  \<open>StepResult\<close>: the wall-clock fields \<open>started_at\<close> and \<open>completed_at\<close> and the free-form
  \<open>metadata\<close> are left out (the engine only copies them). Python floats are modelled as
  reals.
\<close>

record StepResult =
  r_step_id :: string
  r_status :: StepStatus
  r_output :: pyval
  r_error :: "string option"
  r_confidence :: real
  r_duration_ms :: real
  r_llm_calls :: int
  r_tokens_used :: int
  r_agent_name :: string
  r_retry_count :: int

definition succeeded :: "StepResult \<Rightarrow> bool" where
  "succeeded r = (r_status r = COMPLETED)"

definition failed :: "StepResult \<Rightarrow> bool" where
  "failed r = (r_status r = FAILED)"

text \<open>\<open>WorkflowMemory\<close>: the \<open>_store\<close> dict, keyed by strings.\<close>

type_synonym memory = "string \<rightharpoonup> pyval"

definition memory_set :: "memory \<Rightarrow> string \<Rightarrow> pyval \<Rightarrow> memory" where
  "memory_set m key v = m(key \<mapsto> v)"

definition memory_get :: "memory \<Rightarrow> string \<Rightarrow> pyval \<Rightarrow> pyval" where
  "memory_get m key dflt = (case m key of None \<Rightarrow> dflt | Some v \<Rightarrow> v)"

definition memory_update :: "memory \<Rightarrow> memory \<Rightarrow> memory" where
  "memory_update m d = m ++ d"

text \<open>\<open>snapshot\<close> is a deep copy; values are immutable here, so the copy is the store itself.\<close>

definition snapshot :: "memory \<Rightarrow> memory" where
  "snapshot m = m"

record StepTrace =
  t_step_id :: string
  t_agent_name :: string
  t_status :: StepStatus
  t_input_snapshot :: memory
  t_output :: pyval
  t_confidence :: real
  t_duration_ms :: real
  t_llm_calls :: int
  t_tokens_used :: int
  t_error :: "string option"
  t_retry_count :: int
  t_notes :: string

text \<open>
  \<open>WorkflowTrace\<close>: the random \<open>workflow_id\<close> and the timestamps are left out;
  \<open>completed\<close> records that \<open>completed_at\<close> has been set.
\<close>

record WorkflowTrace =
  workflow_name :: string
  status :: WorkflowStatus
  completed :: bool
  steps :: "StepTrace list"
  human_gates_encountered :: int
  human_gates_approved :: int
  total_llm_calls :: int
  total_tokens_used :: int
  total_duration_ms :: real
  error :: "string option"

definition new_trace :: "string \<Rightarrow> WorkflowTrace" where
  "new_trace nm =
     \<lparr> workflow_name = nm, status = WF_RUNNING, completed = False, steps = [],
       human_gates_encountered = 0, human_gates_approved = 0,
       total_llm_calls = 0, total_tokens_used = 0, total_duration_ms = 0,
       error = None \<rparr>"

definition add_step :: "WorkflowTrace \<Rightarrow> StepTrace \<Rightarrow> WorkflowTrace" where
  "add_step tr step_trace =
     tr \<lparr> steps := steps tr @ [step_trace],
          total_llm_calls := total_llm_calls tr + t_llm_calls step_trace,
          total_tokens_used := total_tokens_used tr + t_tokens_used step_trace,
          total_duration_ms := total_duration_ms tr + t_duration_ms step_trace \<rparr>"

definition trace_complete :: "WorkflowTrace \<Rightarrow> WorkflowStatus \<Rightarrow> string option \<Rightarrow> WorkflowTrace" where
  "trace_complete tr st err = tr \<lparr> status := st, completed := True, error := err \<rparr>"

record WorkflowResult =
  res_workflow_name :: string
  res_status :: WorkflowStatus
  res_memory :: memory
  res_trace :: WorkflowTrace
  final_output :: memory
  res_error :: "string option"

section \<open>Steps (src/workflows/workflow\_steps.py)\<close>

text \<open>
  What a callable of the surroundings may raise, with its message \<open>str(e)\<close>: an instance
  of \<open>Exception\<close>, which \<open>except Exception\<close> catches, or an exception outside that class
  (\<open>KeyboardInterrupt\<close>, \<open>SystemExit\<close>, \<open>GeneratorExit\<close>), which it lets through.
\<close>

datatype exc = Exception string | BaseException string

text \<open>
  An executor is any object with a \<open>name\<close> and an \<open>execute(step_id, memory)\<close> method. It
  gets the live memory (which it may change), may keep state of its own between calls
  (the world \<open>'w\<close>), and either returns a \<open>StepResult\<close> or raises.
\<close>

record 'w BaseAgent =
  name :: string
  execute :: "string \<Rightarrow> memory \<Rightarrow> 'w \<Rightarrow> (exc + StepResult) \<times> memory \<times> 'w"

text \<open>
  A condition is a callable on the memory; its value here is \<open>bool(condition(memory))\<close>,
  or the exception raised on the way.
\<close>

type_synonym condition_fn = "memory \<Rightarrow> exc + bool"

record 'w AgentStep =
  step_id :: string
  agent :: "'w BaseAgent"
  memory_key :: string
  description :: string
  max_retries :: int
  required :: bool
  condition :: "condition_fn option"
  timeout_seconds :: "real option"

record HumanGateStep =
  g_step_id :: string
  prompt_fn :: "memory \<Rightarrow> exc + string"
  require_approval :: bool
  g_description :: string
  g_condition :: "condition_fn option"

text \<open>
  \<open>should_run\<close> returns a truth value (\<open>Inr\<close>); its \<open>except Exception: return True\<close> does
  not catch an exception outside \<open>Exception\<close>, which goes on to the caller (\<open>Inl\<close>).
\<close>

definition should_run :: "'w AgentStep \<Rightarrow> memory \<Rightarrow> exc + bool" where
  "should_run s m =
     (case condition s of
        None \<Rightarrow> Inr True
      | Some c \<Rightarrow>
          (case c m of
             Inr b \<Rightarrow> Inr b
           | Inl (Exception e) \<Rightarrow> Inr True
           | Inl (BaseException e) \<Rightarrow> Inl (BaseException e)))"

definition gate_should_run :: "HumanGateStep \<Rightarrow> memory \<Rightarrow> exc + bool" where
  "gate_should_run s m =
     (case g_condition s of
        None \<Rightarrow> Inr True
      | Some c \<Rightarrow>
          (case c m of
             Inr b \<Rightarrow> Inr b
           | Inl (Exception e) \<Rightarrow> Inr True
           | Inl (BaseException e) \<Rightarrow> Inl (BaseException e)))"

datatype 'w step = Agent "'w AgentStep" | Gate HumanGateStep

record 'w WorkflowDefinition =
  wf_name :: string
  wf_steps :: "'w step list"
  wf_description :: string
  wf_version :: string

section \<open>Final output (\<open>_build_final_output\<close>)\<close>

definition key_outputs :: "string list" where
  "key_outputs = [''classification'', ''pesquisa'', ''analise'', ''minuta'', ''revisao'']"

fun build_loop :: "memory \<Rightarrow> string list \<Rightarrow> memory \<Rightarrow> memory" where
  "build_loop m [] output = output"
| "build_loop m (key # keys) output =
     (let val = memory_get m key PNone
      in build_loop m keys (if val \<noteq> PNone then output(key \<mapsto> val) else output))"

definition build_final_output :: "memory \<Rightarrow> memory" where
  "build_final_output m = build_loop m key_outputs Map.empty"

section \<open>The engine (src/workflows/workflow\_engine.py)\<close>

text \<open>
  The state of one run: the memory and the trace the engine owns, and its surroundings.
  \<open>world\<close> is the executors' own state. \<open>stdin\<close> holds, for each future call of
  \<open>input(...)\<close>, what it will yield: the exception it raises (such as \<open>EOFError\<close>, or
  \<open>KeyboardInterrupt\<close>), or the line read after \<open>.strip().lower()\<close>. \<open>stdout\<close> collects what is
  printed. \<open>exec_log\<close> is an observer's record of every call of \<open>execute\<close>: the step id
  and what the call gave back. Logging is not modelled.
\<close>

record 'w run_state =
  rs_memory :: memory
  rs_trace :: WorkflowTrace
  world :: 'w
  stdin :: "(exc + string) stream"
  stdout :: "string list"
  exec_log :: "(string \<times> (exc + StepResult)) list"

definition skipped_trace :: "string \<Rightarrow> StepTrace" where
  "skipped_trace sid =
     \<lparr> t_step_id = sid, t_agent_name = [], t_status = SKIPPED,
       t_input_snapshot = Map.empty, t_output = PDict [], t_confidence = 1,
       t_duration_ms = 0, t_llm_calls = 0, t_tokens_used = 0, t_error = None,
       t_retry_count = 0, t_notes = ''Condition evaluated to False'' \<rparr>"

definition record_skipped :: "string \<Rightarrow> 'w run_state \<Rightarrow> 'w run_state" where
  "record_skipped sid st = st \<lparr> rs_trace := add_step (rs_trace st) (skipped_trace sid) \<rparr>"

subsection \<open>Task steps\<close>

text \<open>One call \<open>step.agent.execute(step.step_id, memory)\<close> on the live memory.\<close>

definition invoke :: "'w AgentStep \<Rightarrow> 'w run_state \<Rightarrow> (exc + StepResult) \<times> 'w run_state" where
  "invoke s st =
     (case execute (agent s) (step_id s) (rs_memory st) (world st) of
        (out, m', w') \<Rightarrow>
          (out, st \<lparr> rs_memory := m', world := w',
                      exec_log := exec_log st @ [(step_id s, out)] \<rparr>))"

text \<open>
  The retry loop \<open>for attempt in range(step.max_retries)\<close>, over the attempt indices still
  to come; \<open>last_result\<close> is threaded through. An exception of \<open>execute\<close> leaves the loop
  (\<open>Inl\<close>); a COMPLETED result writes the memory and breaks.
\<close>

fun retry_loop ::
  "'w AgentStep \<Rightarrow> nat list \<Rightarrow> StepResult option \<Rightarrow> 'w run_state
     \<Rightarrow> (exc + StepResult option) \<times> 'w run_state" where
  "retry_loop s [] last_result st = (Inr last_result, st)"
| "retry_loop s (attempt # rest) last_result st =
     (case invoke s st of
        (Inl e, st') \<Rightarrow> (Inl e, st')
      | (Inr result0, st') \<Rightarrow>
          (let result = result0 \<lparr> r_retry_count := int attempt \<rparr>
           in if succeeded result
              then (Inr (Some result),
                    st' \<lparr> rs_memory := memory_set (rs_memory st') (memory_key s) (r_output result) \<rparr>)
              else retry_loop s rest (Some result) st'))"

definition attribute_error :: string where
  "attribute_error = CHR 0x27 # ''NoneType'' @ CHR 0x27 # '' object has no attribute '' @
                     CHR 0x27 # ''status'' @ [CHR 0x27]"

text \<open>
  The record \<open>StepTrace(step_id=step.step_id, ..., retry_count=last_result.retry_count)\<close>.
  Values are immutable here. In the source the record's \<open>output\<close> is the very dict object
  stored in the memory, so an executor that later edits that dict in place also edits
  the record; the record is as given here at the moment it is made.
\<close>

definition step_trace_of :: "'w AgentStep \<Rightarrow> memory \<Rightarrow> StepResult \<Rightarrow> StepTrace" where
  "step_trace_of s input_snapshot last_result =
     \<lparr> t_step_id = step_id s, t_agent_name = name (agent s),
       t_status = r_status last_result, t_input_snapshot = input_snapshot,
       t_output = r_output last_result, t_confidence = r_confidence last_result,
       t_duration_ms = r_duration_ms last_result, t_llm_calls = r_llm_calls last_result,
       t_tokens_used = r_tokens_used last_result, t_error = r_error last_result,
       t_retry_count = r_retry_count last_result, t_notes = [] \<rparr>"

text \<open>With no attempt at all, \<open>last_result\<close> is still \<open>None\<close> and reading
  \<open>last_result.status\<close> raises an \<open>AttributeError\<close>.\<close>

definition execute_agent_step ::
  "'w AgentStep \<Rightarrow> 'w run_state \<Rightarrow> (exc + StepResult) \<times> 'w run_state" where
  "execute_agent_step s st =
     (let input_snapshot = snapshot (rs_memory st)
      in case retry_loop s [0 ..< nat (max_retries s)] None st of
           (Inl e, st') \<Rightarrow> (Inl e, st')
         | (Inr None, st') \<Rightarrow> (Inl (Exception attribute_error), st')
         | (Inr (Some last_result), st') \<Rightarrow>
             (Inr last_result,
              st' \<lparr> rs_trace := add_step (rs_trace st')
                                   (step_trace_of s input_snapshot last_result) \<rparr>))"

subsection \<open>Gate steps\<close>

definition yes_words :: "string list" where
  "yes_words = [''sim'', ''s'', ''yes'', ''y'']"

definition no_words :: "string list" where
  "no_words = [''nao'', [CHR ''n'', CHR 0xC3, CHR 0xA3, CHR ''o''], ''n'', ''no'']"

definition ask_prompt :: string where
  "ask_prompt = CHR 0x0A # ''Aprovar e continuar? [sim/nao]: ''"

definition ask_again :: string where
  "ask_again = ''Por favor, responda '' @ CHR 0x27 # ''sim'' @ CHR 0x27 # '' ou '' @
               CHR 0x27 # ''nao'' @ [CHR 0x27]"

text \<open>
  The dialog \<open>while True: response = input(...)\<close>. It ends on an approval, a rejection or
  an exception of \<open>input\<close>, and goes on for as long as the answers are none of these:
  \<open>None\<close> stands for a dialog that never ends.
\<close>

partial_function (option) ask_loop ::
  "'w run_state \<Rightarrow> ((exc + bool) \<times> 'w run_state) option" where
  "ask_loop st =
     (let st1 = st \<lparr> stdin := stl (stdin st), stdout := stdout st @ [ask_prompt] \<rparr>
      in case shd (stdin st) of
           Inl e \<Rightarrow> Some (Inl e, st1)
         | Inr response \<Rightarrow>
             if response \<in> set yes_words
             then Some (Inr True,
                        st1 \<lparr> rs_trace := (rs_trace st1)
                          \<lparr> human_gates_approved := human_gates_approved (rs_trace st1) + 1 \<rparr> \<rparr>)
             else if response \<in> set no_words
             then Some (Inr False, st1)
             else ask_loop (st1 \<lparr> stdout := stdout st1 @ [ask_again] \<rparr>))"

definition bar :: string where
  "bar = replicate 60 (CHR ''='')"

text \<open>
  The summary shown at the gate: \<open>try: summary = step.prompt_fn(memory)\<close>, with a
  placeholder when that raises an \<open>Exception\<close>.
\<close>

definition build_summary :: "HumanGateStep \<Rightarrow> memory \<Rightarrow> exc + string" where
  "build_summary s m =
     (case prompt_fn s m of
        Inr text \<Rightarrow> Inr text
      | Inl (Exception e) \<Rightarrow> Inr (''[Error building summary: '' @ e @ '']'')
      | Inl (BaseException e) \<Rightarrow> Inl (BaseException e))"

definition handle_human_gate ::
  "HumanGateStep \<Rightarrow> bool \<Rightarrow> 'w run_state \<Rightarrow> ((exc + bool) \<times> 'w run_state) option" where
  "handle_human_gate s interactive st =
     (let st1 = st \<lparr> rs_trace := (rs_trace st)
                  \<lparr> human_gates_encountered := human_gates_encountered (rs_trace st) + 1 \<rparr> \<rparr>
      in if \<not> interactive \<or> \<not> require_approval s
         then Some (Inr True,
                    st1 \<lparr> rs_trace := (rs_trace st1)
                      \<lparr> human_gates_approved := human_gates_approved (rs_trace st1) + 1 \<rparr> \<rparr>)
         else
           (case build_summary s (rs_memory st1) of
              Inl e \<Rightarrow> Some (Inl e, st1)
            | Inr summary \<Rightarrow>
                ask_loop (st1 \<lparr> stdout := stdout st1 @
                  [CHR 0x0A # bar, ''HUMAN GATE: '' @ g_description s, bar, summary, bar] \<rparr>)))"

subsection \<open>The step loop and the run\<close>

text \<open>How one pass through the body of \<open>for step in workflow.steps\<close> ends.\<close>

datatype flow = Next | Return WorkflowStatus | Raise exc

definition step_should_run :: "'w step \<Rightarrow> memory \<Rightarrow> exc + bool" where
  "step_should_run s m = (case s of Agent a \<Rightarrow> should_run a m | Gate g \<Rightarrow> gate_should_run g m)"

definition id_of :: "'w step \<Rightarrow> string" where
  "id_of s = (case s of Agent a \<Rightarrow> step_id a | Gate g \<Rightarrow> g_step_id g)"

definition required_failed_msg :: "string \<Rightarrow> string option \<Rightarrow> string" where
  "required_failed_msg sid err =
     ''Required step '' @ CHR 0x27 # sid @ CHR 0x27 # '' failed: '' @
     (case err of None \<Rightarrow> ''None'' | Some e \<Rightarrow> e)"

definition process_step ::
  "'w step \<Rightarrow> bool \<Rightarrow> 'w run_state \<Rightarrow> (flow \<times> 'w run_state) option" where
  "process_step s interactive st =
     (case step_should_run s (rs_memory st) of
        Inl e \<Rightarrow> Some (Raise e, st)
      | Inr runs \<Rightarrow>
      if \<not> runs
      then Some (Next, record_skipped (id_of s) st)
      else case s of
        Gate g \<Rightarrow>
          (case handle_human_gate g interactive st of
             None \<Rightarrow> None
           | Some (Inl e, st') \<Rightarrow> Some (Raise e, st')
           | Some (Inr approved, st') \<Rightarrow>
               if \<not> approved
               then Some (Return WF_CANCELLED,
                          st' \<lparr> rs_trace := trace_complete (rs_trace st') WF_CANCELLED None \<rparr>)
               else Some (Next, st'))
      | Agent a \<Rightarrow>
          (case execute_agent_step a st of
             (Inl e, st') \<Rightarrow> Some (Raise e, st')
           | (Inr result, st') \<Rightarrow>
               if failed result \<and> required a
               then (let err = required_failed_msg (step_id a) (r_error result)
                     in Some (Return WF_FAILED,
                              st' \<lparr> rs_trace := trace_complete (rs_trace st') WF_FAILED (Some err) \<rparr>))
               else Some (Next, st')))"

fun execute_steps ::
  "'w step list \<Rightarrow> bool \<Rightarrow> 'w run_state \<Rightarrow> (flow \<times> 'w run_state) option" where
  "execute_steps [] interactive st = Some (Next, st)"
| "execute_steps (s # ss) interactive st =
     (case process_step s interactive st of
        None \<Rightarrow> None
      | Some (Next, st') \<Rightarrow> execute_steps ss interactive st'
      | Some (Return ws, st') \<Rightarrow> Some (Return ws, st')
      | Some (Raise e, st') \<Rightarrow> Some (Raise e, st'))"

text \<open>\<open>_execute_workflow\<close> returns the final status, or raises (\<open>Inl\<close>).\<close>

definition execute_workflow ::
  "'w WorkflowDefinition \<Rightarrow> bool \<Rightarrow> 'w run_state
     \<Rightarrow> ((exc + WorkflowStatus) \<times> 'w run_state) option" where
  "execute_workflow workflow interactive st =
     (case execute_steps (wf_steps workflow) interactive st of
        None \<Rightarrow> None
      | Some (Next, st') \<Rightarrow>
          Some (Inr WF_COMPLETED,
                st' \<lparr> rs_trace := trace_complete (rs_trace st') WF_COMPLETED None \<rparr>)
      | Some (Return ws, st') \<Rightarrow> Some (Inr ws, st')
      | Some (Raise e, st') \<Rightarrow> Some (Inl e, st'))"

text \<open>
  The registry \<open>_workflows\<close> is a dict, kept in insertion order. What leaves \<open>run\<close> as an
  exception: its own \<open>ValueError\<close>, which carries the name asked for and the names
  available, or an exception outside \<open>Exception\<close> raised within the step loop, which
  \<open>except Exception\<close> does not catch (given by its message).
\<close>

type_synonym 'w WorkflowEngine = "(string \<times> 'w WorkflowDefinition) list"

definition register :: "'w WorkflowEngine \<Rightarrow> 'w WorkflowDefinition \<Rightarrow> 'w WorkflowEngine" where
  "register eng workflow = AList.update (wf_name workflow) workflow eng"

datatype run_error = ValueError string "string list" | Propagated string

text \<open>
  \<open>run\<close> raises (\<open>Inl\<close>), or returns the result, given here with the final state of the
  surroundings; \<open>None\<close> is a run that never returns.
\<close>

definition init_state ::
  "string \<Rightarrow> memory \<Rightarrow> 'w \<Rightarrow> (exc + string) stream \<Rightarrow> 'w run_state" where
  "init_state nm initial_input w inp =
     \<lparr> rs_memory = memory_update Map.empty initial_input, rs_trace = new_trace nm,
       world = w, stdin = inp, stdout = [], exec_log = [] \<rparr>"

definition make_result :: "string \<Rightarrow> WorkflowStatus \<Rightarrow> 'w run_state \<Rightarrow> WorkflowResult" where
  "make_result nm ws st =
     \<lparr> res_workflow_name = nm, res_status = ws, res_memory = rs_memory st,
       res_trace = rs_trace st, final_output = build_final_output (rs_memory st),
       res_error = None \<rparr>"

definition run ::
  "'w WorkflowEngine \<Rightarrow> string \<Rightarrow> memory \<Rightarrow> bool \<Rightarrow> 'w \<Rightarrow> (exc + string) stream
     \<Rightarrow> (run_error + WorkflowResult \<times> 'w run_state) option" where
  "run eng nm initial_input interactive w inp =
     (case map_of eng nm of
        None \<Rightarrow> Some (Inl (ValueError nm (map fst eng)))
      | Some workflow \<Rightarrow>
          (case execute_workflow workflow interactive (init_state nm initial_input w inp) of
             None \<Rightarrow> None
           | Some (Inr ws, st1) \<Rightarrow> Some (Inr (make_result nm ws st1, st1))
           | Some (Inl (Exception e), st1) \<Rightarrow>
               (let st2 = st1 \<lparr> rs_trace := trace_complete (rs_trace st1) WF_FAILED (Some e) \<rparr>
                in Some (Inr (make_result nm WF_FAILED st2, st2)))
           | Some (Inl (BaseException e), st1) \<Rightarrow> Some (Inl (Propagated e))))"

section \<open>Fixtures (tests/test\_orchestrator.py)\<close>

text \<open>The result and the executor built by \<open>make_mock_agent(name, output, confidence)\<close>.\<close>

definition mock_result :: "string \<Rightarrow> pyval \<Rightarrow> real \<Rightarrow> string \<Rightarrow> StepResult" where
  "mock_result nm out conf sid =
     \<lparr> r_step_id = sid, r_status = COMPLETED, r_output = out, r_error = None,
       r_confidence = conf, r_duration_ms = 10, r_llm_calls = 1, r_tokens_used = 100,
       r_agent_name = nm, r_retry_count = 0 \<rparr>"

definition make_mock_agent :: "string \<Rightarrow> pyval \<Rightarrow> real \<Rightarrow> 'w BaseAgent" where
  "make_mock_agent nm out conf =
     \<lparr> name = nm, execute = (\<lambda>sid m w. (Inr (mock_result nm out conf sid), m, w)) \<rparr>"

text \<open>The \<open>FailAgent\<close> of the tests: every call returns the same FAILED result.\<close>

definition fail_result :: "string \<Rightarrow> string \<Rightarrow> StepResult" where
  "fail_result sid err =
     \<lparr> r_step_id = sid, r_status = FAILED, r_output = PDict [], r_error = Some err,
       r_confidence = 1, r_duration_ms = 0, r_llm_calls = 0, r_tokens_used = 0,
       r_agent_name = ''FailAgent'', r_retry_count = 0 \<rparr>"

definition failing_agent :: "string \<Rightarrow> string \<Rightarrow> 'w BaseAgent" where
  "failing_agent sid err =
     \<lparr> name = ''FailAgent'', execute = (\<lambda>_ m w. (Inr (fail_result sid err), m, w)) \<rparr>"

text \<open>An executor that counts its calls, fails on the first and completes from then on.\<close>

definition flaky_agent :: "pyval \<Rightarrow> nat BaseAgent" where
  "flaky_agent out =
     \<lparr> name = ''FlakyAgent'',
       execute = (\<lambda>sid m w.
         (Inr (if w = 0 then fail_result sid ''first call'' else mock_result ''FlakyAgent'' out (9 / 10) sid),
          m, Suc w)) \<rparr>"

text \<open>\<open>AgentStep(step_id, agent, memory_key)\<close> and \<open>HumanGateStep(step_id, prompt_fn)\<close> with
  the defaults of the dataclasses.\<close>

definition agent_step :: "string \<Rightarrow> 'w BaseAgent \<Rightarrow> string \<Rightarrow> 'w AgentStep" where
  "agent_step sid a key =
     \<lparr> step_id = sid, agent = a, memory_key = key, description = [], max_retries = 1,
       required = True, condition = None, timeout_seconds = None \<rparr>"

definition gate_step :: "string \<Rightarrow> (memory \<Rightarrow> exc + string) \<Rightarrow> HumanGateStep" where
  "gate_step sid f =
     \<lparr> g_step_id = sid, prompt_fn = f, require_approval = True,
       g_description = ''Human review gate'', g_condition = None \<rparr>"

definition workflow_of :: "string \<Rightarrow> 'w step list \<Rightarrow> 'w WorkflowDefinition" where
  "workflow_of nm ss = \<lparr> wf_name = nm, wf_steps = ss, wf_description = [], wf_version = ''1.0'' \<rparr>"

definition review_prompt :: "memory \<Rightarrow> exc + string" where
  "review_prompt m = Inr ''Review this''"

definition division_by_zero :: condition_fn where
  "division_by_zero m = Inl (Exception ''division by zero'')"

definition flag_is_true :: condition_fn where
  "flag_is_true m = Inr (m ''flag'' = Some (PBool True))"

text \<open>A console on which the given answers are typed (already stripped and in lower
  case), followed by the end of the input, where \<open>input\<close> raises \<open>EOFError\<close>.\<close>

definition eof_error :: exc where
  "eof_error = Exception ''EOF when reading a line''"

definition console :: "string list \<Rightarrow> (exc + string) stream" where
  "console answers = map Inr answers @- sconst (Inl eof_error)"

text \<open>A console on which the answer is never a yes or a no.\<close>

definition hesitant :: "(exc + string) stream" where
  "hesitant = sconst (Inr ''talvez'')"

text \<open>An executor that is interrupted from the keyboard: its call raises
  \<open>KeyboardInterrupt\<close>, which is not an \<open>Exception\<close>.\<close>

definition keyboard_interrupt :: exc where
  "keyboard_interrupt = BaseException []"

definition interrupted_agent :: "'w BaseAgent" where
  "interrupted_agent =
     \<lparr> name = ''InterruptedAgent'', execute = (\<lambda>sid m w. (Inl keyboard_interrupt, m, w)) \<rparr>"

definition classify_output :: pyval where
  "classify_output = PDict [(''area'', PStr ''trabalhista''), (''urgencia'', PStr ''media'')]"

definition classify_step :: "nat AgentStep" where
  "classify_step =
     agent_step ''classify'' (make_mock_agent ''ClassifierAgent'' classify_output (9 / 10))
       ''classification''"

definition fail_step :: "nat AgentStep" where
  "fail_step =
     (agent_step ''fail_step'' (failing_agent ''fail_step'' ''Simulated failure'') ''result'')
       \<lparr> max_retries := 2 \<rparr>"

definition opt_step :: "nat AgentStep" where
  "opt_step =
     (agent_step ''opt_step'' (failing_agent ''opt_step'' ''Optional failure'') ''optional_result'')
       \<lparr> required := False \<rparr>"

definition flaky_step :: "nat AgentStep" where
  "flaky_step =
     (agent_step ''flaky'' (flaky_agent (PDict [(''ok'', PBool True)])) ''final_result'')
       \<lparr> max_retries := 3 \<rparr>"

definition overconfident_step :: "nat AgentStep" where
  "overconfident_step =
     agent_step ''guess'' (make_mock_agent ''A'' (PDict []) (3 / 2)) ''guessed''"

definition done_step :: "nat AgentStep" where
  "done_step = agent_step ''s'' (make_mock_agent ''A'' (PDict [(''done'', PBool True)]) (9 / 10)) ''done''"

definition interrupted_step :: "nat AgentStep" where
  "interrupted_step = agent_step ''interrupted'' interrupted_agent ''result''"

definition gate :: HumanGateStep where
  "gate = gate_step ''gate'' review_prompt"

definition test_engine :: "nat WorkflowEngine" where
  "test_engine =
     register (register (register (register (register (register (register (register []
       (workflow_of ''test_workflow'' [Agent classify_step]))
       (workflow_of ''fail_workflow'' [Agent fail_step, Agent classify_step]))
       (workflow_of ''optional_fail_workflow'' [Agent opt_step, Agent classify_step]))
       (workflow_of ''gate_workflow'' [Agent classify_step, Gate gate, Agent done_step]))
       (workflow_of ''flaky_workflow'' [Agent flaky_step]))
       (workflow_of ''overconfident_workflow'' [Agent overconfident_step]))
       (workflow_of ''gate_only_workflow'' [Gate gate]))
       (workflow_of ''interrupted_workflow'' [Agent classify_step, Agent interrupted_step])"

definition flaky_start :: "nat run_state" where
  "flaky_start = init_state ''flaky_workflow'' Map.empty 0 (console [])"

text \<open>The states of the gate workflow on a console that hesitates and then rejects:
  at the start, on reaching the gate, and after it.\<close>

definition gate_start :: "nat run_state" where
  "gate_start = init_state ''gate_workflow'' Map.empty 0 (console [''talvez'', ''nao''])"

definition at_gate :: "bool \<Rightarrow> nat run_state" where
  "at_gate i = snd (the (execute_steps [Agent classify_step] i gate_start))"

definition after_gate :: "bool \<Rightarrow> nat run_state" where
  "after_gate i = snd (the (handle_human_gate gate i (at_gate i)))"

definition fail_start :: "nat run_state" where
  "fail_start = init_state ''fail_workflow'' Map.empty 0 (console [])"

definition opt_start :: "nat run_state" where
  "opt_start = init_state ''optional_fail_workflow'' Map.empty 0 (console [])"

definition cond_gate :: HumanGateStep where
  "cond_gate = gate \<lparr> g_condition := Some flag_is_true \<rparr>"

text \<open>What a returned run gave, if it returned a result.\<close>

definition result_of :: "(run_error + WorkflowResult \<times> 'w run_state) option \<Rightarrow> WorkflowResult option" where
  "result_of x = (case x of Some (Inr (res, st)) \<Rightarrow> Some res | _ \<Rightarrow> None)"

section \<open>Notions used in the statements\<close>

text \<open>An outcome of \<open>input\<close> that ends the approval dialog.\<close>

definition decisive :: "exc + string \<Rightarrow> bool" where
  "decisive x =
     (case x of Inl e \<Rightarrow> True
      | Inr response \<Rightarrow> response \<in> set yes_words \<or> response \<in> set no_words)"

text \<open>The approval channel always answers in the end, from wherever the dialog starts.\<close>

definition responsive :: "(exc + string) stream \<Rightarrow> bool" where
  "responsive inp = (\<forall>k. \<exists>n. decisive (sdrop k inp !! n))"

text \<open>A call of \<open>execute\<close> that did not give a COMPLETED result.\<close>

definition not_completed :: "exc + StepResult \<Rightarrow> bool" where
  "not_completed c = (case c of Inl e \<Rightarrow> False | Inr r \<Rightarrow> \<not> succeeded r)"

text \<open>A step whose executor, if it has one, only ever reports a confidence within
  \<open>[0, 1]\<close>, as the agents of the repository do (each \<open>_parse_output\<close> clamps it).\<close>

definition confidence_in_range :: "'w step \<Rightarrow> bool" where
  "confidence_in_range s =
     (case s of
        Gate g \<Rightarrow> True
      | Agent a \<Rightarrow>
          (\<forall>sid m w r m' w'. execute (agent a) sid m w = (Inr r, m', w') \<longrightarrow>
             0 \<le> r_confidence r \<and> r_confidence r \<le> 1))"

definition confidence_ok :: "StepTrace \<Rightarrow> bool" where
  "confidence_ok t = (0 \<le> t_confidence t \<and> t_confidence t \<le> 1)"

text \<open>A call that raised an exception outside \<open>Exception\<close>.\<close>

definition interrupted :: "exc + 'a \<Rightarrow> bool" where
  "interrupted x = (case x of Inl (BaseException e) \<Rightarrow> True | _ \<Rightarrow> False)"

text \<open>A step whose condition, executor and summary never raise outside \<open>Exception\<close>, and
  a console on which \<open>input\<close> never does.\<close>

definition quiet_step :: "'w step \<Rightarrow> bool" where
  "quiet_step s =
     (case s of
        Agent a \<Rightarrow>
          (\<forall>sid m w. \<not> interrupted (fst (execute (agent a) sid m w))) \<and>
          (\<forall>c m. condition a = Some c \<longrightarrow> \<not> interrupted (c m))
      | Gate g \<Rightarrow>
          (\<forall>m. \<not> interrupted (prompt_fn g m)) \<and>
          (\<forall>c m. g_condition g = Some c \<longrightarrow> \<not> interrupted (c m)))"

definition quiet_input :: "(exc + string) stream \<Rightarrow> bool" where
  "quiet_input inp = (\<forall>n. \<not> interrupted (inp !! n))"

text \<open>
  The calls that stand behind a record, at the front of a log: with \<open>n\<close> the record's
  \<open>retry_count\<close>, the first \<open>n + 1\<close> calls are calls for the record's step, the first \<open>n\<close>
  of them gave no COMPLETED result, and the last of them (the terminal attempt) returned
  a result with the record's status and the record's confidence.
\<close>

definition terminal_call :: "StepTrace \<Rightarrow> (string \<times> (exc + StepResult)) list \<Rightarrow> bool" where
  "terminal_call t calls =
     (let n = nat (t_retry_count t)
      in 0 \<le> t_retry_count t \<and> n < length calls \<and>
         list_all (\<lambda>c. fst c = t_step_id t) (take (Suc n) calls) \<and>
         list_all (\<lambda>c. not_completed (snd c)) (take n calls) \<and>
         (case snd (calls ! n) of
            Inl e \<Rightarrow> False
          | Inr r \<Rightarrow> t_status t = r_status r \<and> t_confidence t = r_confidence r))"

text \<open>
  The calls of a log that the records of a trace leave over. The records take their calls
  from the front of the log, in order: a skipped record takes none, any other record
  takes the calls that stand behind it. \<open>None\<close> when a record does not find its calls.
\<close>

fun unrecorded_calls ::
  "StepTrace list \<Rightarrow> (string \<times> (exc + StepResult)) list
     \<Rightarrow> (string \<times> (exc + StepResult)) list option" where
  "unrecorded_calls [] calls = Some calls"
| "unrecorded_calls (t # ts) calls =
     (if t = skipped_trace (t_step_id t) then unrecorded_calls ts calls
      else if terminal_call t calls
           then unrecorded_calls ts (drop (Suc (nat (t_retry_count t))) calls)
           else None)"

text \<open>A dialog that ends has met a decisive entry of the console, and what it raises is
  that entry.\<close>

definition dialog_end :: "'w run_state \<Rightarrow> (exc + bool) \<times> 'w run_state \<Rightarrow> bool" where
  "dialog_end st y \<longleftrightarrow>
     (\<exists>n. decisive (stdin st !! n) \<and> (\<forall>e. fst y = Inl e \<longrightarrow> stdin st !! n = Inl e))"

text \<open>What a gate may change: the two counters, and the console.\<close>

definition gate_frame :: "'w run_state \<Rightarrow> (exc + bool) \<times> 'w run_state \<Rightarrow> bool" where
  "gate_frame st y \<longleftrightarrow>
     rs_memory (snd y) = rs_memory st \<and> world (snd y) = world st \<and>
     exec_log (snd y) = exec_log st \<and>
     steps (rs_trace (snd y)) = steps (rs_trace st) \<and>
     human_gates_encountered (rs_trace (snd y)) = human_gates_encountered (rs_trace st) \<and>
     human_gates_approved (rs_trace (snd y)) =
       human_gates_approved (rs_trace st) + (if fst y = Inr True then 1 else 0) \<and>
     status (rs_trace (snd y)) = status (rs_trace st) \<and>
     completed (rs_trace (snd y)) = completed (rs_trace st) \<and>
     error (rs_trace (snd y)) = error (rs_trace st) \<and>
     (\<exists>k. stdin (snd y) = sdrop k (stdin st))"

section \<open>Evaluation and unfolding\<close>

lemmas fixture_defs =
  mock_result_def make_mock_agent_def fail_result_def failing_agent_def flaky_agent_def
  agent_step_def gate_step_def workflow_of_def review_prompt_def division_by_zero_def
  flag_is_true_def result_of_def console_def classify_output_def classify_step_def
  fail_step_def opt_step_def flaky_step_def overconfident_step_def done_step_def gate_def
  test_engine_def flaky_start_def gate_start_def at_gate_def after_gate_def fail_start_def
  opt_start_def cond_gate_def eof_error_def hesitant_def keyboard_interrupt_def
  interrupted_agent_def interrupted_step_def

lemmas engine_defs =
  run_def init_state_def make_result_def execute_workflow_def process_step_def
  step_should_run_def should_run_def gate_should_run_def id_of_def record_skipped_def
  execute_agent_step_def invoke_def handle_human_gate_def add_step_def trace_complete_def
  new_trace_def memory_update_def memory_set_def snapshot_def succeeded_def failed_def
  register_def Let_def required_failed_msg_def yes_words_def no_words_def
  skipped_trace_def step_trace_of_def build_summary_def

lemma run_registered:
  "map_of eng nm = Some workflow \<Longrightarrow>
   run eng nm inp0 i w inp =
     (case execute_workflow workflow i (init_state nm inp0 w inp) of
        None \<Rightarrow> None
      | Some (Inr ws, st1) \<Rightarrow> Some (Inr (make_result nm ws st1, st1))
      | Some (Inl (Exception e), st1) \<Rightarrow>
          Some (Inr (make_result nm WF_FAILED
                       (st1 \<lparr> rs_trace := trace_complete (rs_trace st1) WF_FAILED (Some e) \<rparr>),
                     st1 \<lparr> rs_trace := trace_complete (rs_trace st1) WF_FAILED (Some e) \<rparr>))
      | Some (Inl (BaseException e), st1) \<Rightarrow> Some (Inl (Propagated e)))"
  by (auto simp: run_def Let_def split: option.splits sum.splits exc.splits)

lemma run_result_cases:
  assumes "run eng nm inp0 i w inp = Some (Inr (res, st))"
  obtains workflow ws where "map_of eng nm = Some workflow"
      "execute_workflow workflow i (init_state nm inp0 w inp) = Some (Inr ws, st)"
      "res = make_result nm ws st"
  | workflow e st1 where "map_of eng nm = Some workflow"
      "execute_workflow workflow i (init_state nm inp0 w inp) = Some (Inl (Exception e), st1)"
      "st = st1 \<lparr> rs_trace := trace_complete (rs_trace st1) WF_FAILED (Some e) \<rparr>"
      "res = make_result nm WF_FAILED st"
  using assms
  by (auto simp: run_def Let_def split: option.splits sum.splits prod.splits exc.splits)

section \<open>Condition evaluation\<close>

text \<open>
  C7. A step without a condition always runs, and a condition that raises an error (an
  \<open>Exception\<close>) counts as true, for task steps and for gate steps alike: \<open>should_run\<close>
  returns true, it does not skip and it does not raise. A condition that returns decides
  by its value.
\<close>

theorem should_run_fail_open:
  "(condition s = None \<longrightarrow> should_run s m = Inr True) \<and>
   (condition s = Some c \<and> c m = Inl (Exception e) \<longrightarrow> should_run s m = Inr True) \<and>
   (condition s = Some c \<and> c m = Inr b \<longrightarrow> should_run s m = Inr b) \<and>
   (g_condition g = None \<longrightarrow> gate_should_run g m = Inr True) \<and>
   (g_condition g = Some c' \<and> c' m = Inl (Exception e') \<longrightarrow> gate_should_run g m = Inr True) \<and>
   (g_condition g = Some c' \<and> c' m = Inr b' \<longrightarrow> gate_should_run g m = Inr b')"
  by (simp add: should_run_def gate_should_run_def)

theorem should_run_fail_open_witness:
  "should_run ((agent_step ''test'' (make_mock_agent ''MockAgent'' (PDict []) (9 / 10) :: nat BaseAgent) ''result'')
       \<lparr> condition := Some division_by_zero \<rparr>) Map.empty = Inr True \<and>
   gate_should_run ((gate_step ''gate'' review_prompt) \<lparr> g_condition := Some division_by_zero \<rparr>) Map.empty =
     Inr True \<and>
   should_run (agent_step ''test'' (make_mock_agent ''MockAgent'' (PDict []) (9 / 10) :: nat BaseAgent) ''result'')
     Map.empty = Inr True \<and>
   gate_should_run (gate_step ''gate'' review_prompt) Map.empty = Inr True \<and>
   should_run ((agent_step ''test'' (make_mock_agent ''MockAgent'' (PDict []) (9 / 10) :: nat BaseAgent) ''result'')
       \<lparr> condition := Some flag_is_true \<rparr>) [''flag'' \<mapsto> PBool False] = Inr False"
  using
    should_run_fail_open [of
      "(agent_step ''test'' (make_mock_agent ''MockAgent'' (PDict []) (9 / 10) :: nat BaseAgent) ''result'')
         \<lparr> condition := Some division_by_zero \<rparr>"
      Map.empty division_by_zero "''division by zero''" True
      "(gate_step ''gate'' review_prompt) \<lparr> g_condition := Some division_by_zero \<rparr>"
      division_by_zero "''division by zero''" True]
    should_run_fail_open [of
      "agent_step ''test'' (make_mock_agent ''MockAgent'' (PDict []) (9 / 10) :: nat BaseAgent) ''result''"
      Map.empty division_by_zero "''division by zero''" True
      "gate_step ''gate'' review_prompt" division_by_zero "''division by zero''" True]
    should_run_fail_open [of
      "(agent_step ''test'' (make_mock_agent ''MockAgent'' (PDict []) (9 / 10) :: nat BaseAgent) ''result'')
         \<lparr> condition := Some flag_is_true \<rparr>"
      "[''flag'' \<mapsto> PBool False]" flag_is_true "''x''" False
      "gate_step ''gate'' review_prompt" division_by_zero "''division by zero''" True]
  by (simp add: agent_step_def gate_step_def division_by_zero_def flag_is_true_def)

section \<open>The final output\<close>

lemma build_loop_lookup:
  "build_loop m ks out k =
     (if k \<in> set ks \<and> m k \<noteq> None \<and> m k \<noteq> Some PNone then m k else out k)"
  by (induction ks arbitrary: out) (auto simp: memory_get_def Let_def split: option.splits)

text \<open>
  C9. The final output holds, for each of the five deliverable keys, the memory's value
  when that value is present and not \<open>None\<close>, and holds nothing else; every returned run
  builds its \<open>final_output\<close> this way from its terminal memory.
\<close>

theorem final_output_keys:
  "build_final_output m k =
     (if k \<in> set key_outputs \<and> m k \<noteq> None \<and> m k \<noteq> Some PNone then m k else None) \<and>
   (run eng nm inp0 i w inp = Some (Inr (res, st)) \<longrightarrow>
      res_memory res = rs_memory st \<and> final_output res = build_final_output (rs_memory st))"
proof
  show "build_final_output m k =
     (if k \<in> set key_outputs \<and> m k \<noteq> None \<and> m k \<noteq> Some PNone then m k else None)"
    by (simp add: build_final_output_def build_loop_lookup)
  show "run eng nm inp0 i w inp = Some (Inr (res, st)) \<longrightarrow>
      res_memory res = rs_memory st \<and> final_output res = build_final_output (rs_memory st)"
  proof
    assume "run eng nm inp0 i w inp = Some (Inr (res, st))"
    then show "res_memory res = rs_memory st \<and> final_output res = build_final_output (rs_memory st)"
      by (cases rule: run_result_cases) (simp_all add: make_result_def)
  qed
qed

theorem final_output_keys_witness:
  "\<exists>res st.
     run test_engine ''test_workflow'' [''caso'' \<mapsto> PStr ''teste'', ''minuta'' \<mapsto> PNone]
       False 0 (console []) = Some (Inr (res, st)) \<and>
     final_output res = build_final_output (rs_memory st) \<and>
     final_output res ''classification'' = Some classify_output \<and>
     final_output res ''caso'' = None \<and> res_memory res ''caso'' = Some (PStr ''teste'') \<and>
     final_output res ''minuta'' = None \<and> res_memory res ''minuta'' = Some PNone"
proof -
  obtain res st where
    r: "run test_engine ''test_workflow'' [''caso'' \<mapsto> PStr ''teste'', ''minuta'' \<mapsto> PNone]
          False 0 (console []) = Some (Inr (res, st))" and
    m: "rs_memory st = [''caso'' \<mapsto> PStr ''teste'', ''minuta'' \<mapsto> PNone,
                        ''classification'' \<mapsto> classify_output]"
    by (simp add: engine_defs fixture_defs)
  from r m
    final_output_keys [of "rs_memory st" "''classification''" test_engine "''test_workflow''"
      "[''caso'' \<mapsto> PStr ''teste'', ''minuta'' \<mapsto> PNone]" False 0 "console []" res st]
    final_output_keys [of "rs_memory st" "''caso''" test_engine "''test_workflow''"
      "[''caso'' \<mapsto> PStr ''teste'', ''minuta'' \<mapsto> PNone]" False 0 "console []" res st]
    final_output_keys [of "rs_memory st" "''minuta''" test_engine "''test_workflow''"
      "[''caso'' \<mapsto> PStr ''teste'', ''minuta'' \<mapsto> PNone]" False 0 "console []" res st]
  show ?thesis by (simp add: key_outputs_def classify_output_def)
qed

section \<open>The approval dialog\<close>

text \<open>Whenever the dialog ends, it has touched nothing but the approval counter and the
  console.\<close>

lemma ask_loop_frame:
  fixes st :: "'w run_state"
  assumes "ask_loop st = Some y"
  shows "gate_frame st y"
proof (rule ask_loop.raw_induct[where P = gate_frame, OF _ assms])
  fix ask :: "'w run_state \<Rightarrow> ((exc + bool) \<times> 'w run_state) option" and st y
  assume IH: "\<And>st y. ask st = Some y \<Longrightarrow> gate_frame st y"
  assume step: "(let st1 = st \<lparr> stdin := stl (stdin st), stdout := stdout st @ [ask_prompt] \<rparr>
      in case shd (stdin st) of
           Inl e \<Rightarrow> Some (Inl e, st1)
         | Inr response \<Rightarrow>
             if response \<in> set yes_words
             then Some (Inr True,
                        st1 \<lparr> rs_trace := (rs_trace st1)
                          \<lparr> human_gates_approved := human_gates_approved (rs_trace st1) + 1 \<rparr> \<rparr>)
             else if response \<in> set no_words
             then Some (Inr False, st1)
             else ask (st1 \<lparr> stdout := stdout st1 @ [ask_again] \<rparr>)) = Some y"
  let ?st1 = "st \<lparr> stdin := stl (stdin st), stdout := stdout st @ [ask_prompt] \<rparr>"
  have drop1: "stl (stdin st) = sdrop 1 (stdin st)" by simp
  show "gate_frame st y"
  proof (cases "shd (stdin st)")
    case (Inl e)
    with step have "y = (Inl e, ?st1)"
      by (simp add: Let_def)
    then show ?thesis unfolding gate_frame_def using drop1 by (auto simp del: sdrop.simps)
  next
    case (Inr response)
    consider (yes) "response \<in> set yes_words"
      | (no) "response \<notin> set yes_words" "response \<in> set no_words"
      | (again) "response \<notin> set yes_words" "response \<notin> set no_words"
      by blast
    then show ?thesis
    proof cases
      case yes
      with step Inr have "y = (Inr True, ?st1 \<lparr> rs_trace := (rs_trace ?st1)
                          \<lparr> human_gates_approved := human_gates_approved (rs_trace ?st1) + 1 \<rparr> \<rparr>)"
        by (simp add: Let_def)
      then show ?thesis unfolding gate_frame_def using drop1 by (auto simp del: sdrop.simps)
    next
      case no
      with step Inr have "y = (Inr False, ?st1)"
        by (simp add: Let_def)
      then show ?thesis unfolding gate_frame_def using drop1 by (auto simp del: sdrop.simps)
    next
      case again
      with step Inr have "ask (?st1 \<lparr> stdout := stdout ?st1 @ [ask_again] \<rparr>) = Some y"
        by (simp add: Let_def)
      from IH[OF this] obtain k where
        k: "stdin (snd y) = sdrop k (stl (stdin st))"
        and rest: "rs_memory (snd y) = rs_memory st" "world (snd y) = world st"
          "exec_log (snd y) = exec_log st" "steps (rs_trace (snd y)) = steps (rs_trace st)"
          "human_gates_encountered (rs_trace (snd y)) = human_gates_encountered (rs_trace st)"
          "human_gates_approved (rs_trace (snd y)) = human_gates_approved (rs_trace st) + (if fst y = Inr True then 1 else 0)"
          "status (rs_trace (snd y)) = status (rs_trace st)"
          "completed (rs_trace (snd y)) = completed (rs_trace st)"
          "error (rs_trace (snd y)) = error (rs_trace st)"
        unfolding gate_frame_def by auto
      from k have "stdin (snd y) = sdrop (Suc k) (stdin st)" by simp
      with rest show ?thesis unfolding gate_frame_def by blast
    qed
  qed
qed

lemma ask_loop_returns:
  "decisive (stdin st !! n) \<Longrightarrow> ask_loop st \<noteq> None"
proof (induction n arbitrary: st)
  case 0
  then show ?case
    by (subst ask_loop.simps) (auto simp: decisive_def Let_def split: sum.splits)
next
  case (Suc n)
  let ?st1 = "st \<lparr> stdin := stl (stdin st), stdout := stdout st @ [ask_prompt] \<rparr>"
  from Suc.prems have "decisive (stdin (?st1 \<lparr> stdout := stdout ?st1 @ [ask_again] \<rparr>) !! n)" by simp
  from Suc.IH[OF this] show ?case
    by (subst ask_loop.simps) (auto simp: Let_def split: sum.splits)
qed

text \<open>The gate handler: one more gate encountered, then as the dialog.\<close>

lemma handle_human_gate_frame:
  assumes "handle_human_gate g i st = Some y"
  shows "gate_frame (st \<lparr> rs_trace := (rs_trace st)
            \<lparr> human_gates_encountered := human_gates_encountered (rs_trace st) + 1 \<rparr> \<rparr>) y"
proof (cases "\<not> i \<or> \<not> require_approval g")
  case True
  with assms show ?thesis
    by (auto simp: handle_human_gate_def gate_frame_def Let_def intro: exI[of _ 0])
next
  case False
  show ?thesis
  proof (cases "build_summary g (rs_memory st)")
    case (Inl e)
    with assms False show ?thesis
      by (auto simp: handle_human_gate_def gate_frame_def Let_def intro: exI[of _ 0])
  next
    case (Inr summary)
    with assms False show ?thesis
      by (auto simp: handle_human_gate_def Let_def gate_frame_def dest!: ask_loop_frame)
  qed
qed

lemma handle_human_gate_returns:
  fixes st :: "'w run_state"
  assumes "\<not> i \<or> \<not> require_approval g \<or> (\<exists>n. decisive (stdin st !! n))"
  shows "handle_human_gate g i st \<noteq> None"
proof (cases "\<not> i \<or> \<not> require_approval g")
  case True
  then show ?thesis by (auto simp: handle_human_gate_def Let_def)
next
  case False
  with assms obtain n where n: "decisive (stdin st !! n)" by blast
  have "ask_loop st2 \<noteq> None" if "stdin st2 = stdin st" for st2 :: "'w run_state"
    using ask_loop_returns[of st2 n] n that by simp
  with False show ?thesis
    by (simp add: handle_human_gate_def Let_def split: sum.splits)
qed

section \<open>The retry loop\<close>

lemma invoke_cases:
  obtains c m' w' where "execute (agent s) (step_id s) (rs_memory st) (world st) = (c, m', w')"
    "invoke s st = (c, st \<lparr> rs_memory := m', world := w', exec_log := exec_log st @ [(step_id s, c)] \<rparr>)"
  by (cases "execute (agent s) (step_id s) (rs_memory st) (world st)") (auto simp: invoke_def)

text \<open>
  The calls the loop makes: at most one per attempt index, none after a COMPLETED result
  or an exception, and the result handed on is that of the last call, stamped with its
  attempt index.
\<close>

lemma retry_loop_calls:
  "retry_loop s atts lst st = (out, st') \<Longrightarrow>
   \<exists>calls. exec_log st' = exec_log st @ map (Pair (step_id s)) calls \<and>
     length calls \<le> length atts \<and> list_all not_completed (butlast calls) \<and>
     rs_trace st' = rs_trace st \<and> stdin st' = stdin st \<and> stdout st' = stdout st \<and>
     (\<forall>c \<in> set calls. \<exists>m w m' w'. execute (agent s) (step_id s) m w = (c, m', w')) \<and>
     (case out of
        Inl e \<Rightarrow> calls \<noteq> [] \<and> last calls = Inl e
      | Inr lr \<Rightarrow>
          (if calls = [] then atts = [] \<and> lr = lst \<and> st' = st
           else \<exists>r0. last calls = Inr r0 \<and>
                  lr = Some (r0 \<lparr> r_retry_count := int (atts ! (length calls - 1)) \<rparr>) \<and>
                  (if succeeded r0 then rs_memory st' (memory_key s) = Some (r_output r0)
                   else length calls = length atts)))"
proof (induction atts arbitrary: lst st)
  case Nil
  then show ?case by (intro exI[of _ "[]"]) auto
next
  case (Cons attempt rest)
  obtain c m' w' where
    ex: "execute (agent s) (step_id s) (rs_memory st) (world st) = (c, m', w')" and
    inv: "invoke s st = (c, st \<lparr> rs_memory := m', world := w', exec_log := exec_log st @ [(step_id s, c)] \<rparr>)"
    by (rule invoke_cases)
  let ?st1 = "st \<lparr> rs_memory := m', world := w', exec_log := exec_log st @ [(step_id s, c)] \<rparr>"
  show ?case
  proof (cases c)
    case (Inl e)
    with Cons.prems inv have "out = Inl e" "st' = ?st1" by auto
    then show ?thesis using Inl ex by (intro exI[of _ "[c]"]) auto
  next
    case (Inr r0)
    show ?thesis
    proof (cases "succeeded r0")
      case True
      with Cons.prems inv Inr have "out = Inr (Some (r0 \<lparr> r_retry_count := int attempt \<rparr>))"
        "st' = ?st1 \<lparr> rs_memory := memory_set (rs_memory ?st1) (memory_key s) (r_output r0) \<rparr>"
        by (auto simp: succeeded_def Let_def)
      then show ?thesis using Inr True ex
        by (intro exI[of _ "[c]"]) (auto simp: memory_set_def)
    next
      case False
      with Cons.prems inv Inr have rec: "retry_loop s rest (Some (r0 \<lparr> r_retry_count := int attempt \<rparr>)) ?st1 = (out, st')"
        by (auto simp: succeeded_def Let_def)
      from Cons.IH[OF rec] obtain calls where
        log: "exec_log st' = exec_log ?st1 @ map (Pair (step_id s)) calls"
        and len: "length calls \<le> length rest"
        and nc: "list_all not_completed (butlast calls)"
        and fr: "rs_trace st' = rs_trace ?st1" "stdin st' = stdin ?st1" "stdout st' = stdout ?st1"
        and exs: "\<forall>c \<in> set calls. \<exists>m w m' w'. execute (agent s) (step_id s) m w = (c, m', w')"
        and res: "(case out of
        Inl e \<Rightarrow> calls \<noteq> [] \<and> last calls = Inl e
      | Inr lr \<Rightarrow>
          (if calls = [] then rest = [] \<and> lr = Some (r0 \<lparr> r_retry_count := int attempt \<rparr>) \<and> st' = ?st1
           else \<exists>r0. last calls = Inr r0 \<and>
                  lr = Some (r0 \<lparr> r_retry_count := int (rest ! (length calls - 1)) \<rparr>) \<and>
                  (if succeeded r0 then rs_memory st' (memory_key s) = Some (r_output r0)
                   else length calls = length rest)))"
        by blast
      have ncc: "not_completed c" using Inr False by (simp add: not_completed_def)
      show ?thesis
      proof (intro exI[of _ "c # calls"] conjI)
        show "exec_log st' = exec_log st @ map (Pair (step_id s)) (c # calls)" using log by simp
        show "length (c # calls) \<le> length (attempt # rest)" using len by simp
        show "list_all not_completed (butlast (c # calls))" using nc ncc by simp
        show "rs_trace st' = rs_trace st" "stdin st' = stdin st" "stdout st' = stdout st" using fr by simp_all
        show "\<forall>c \<in> set (c # calls). \<exists>m w m' w'. execute (agent s) (step_id s) m w = (c, m', w')"
          using exs ex by auto
        show "case out of
        Inl e \<Rightarrow> c # calls \<noteq> [] \<and> last (c # calls) = Inl e
      | Inr lr \<Rightarrow>
          (if c # calls = [] then attempt # rest = [] \<and> lr = lst \<and> st' = st
           else \<exists>r0. last (c # calls) = Inr r0 \<and>
                  lr = Some (r0 \<lparr> r_retry_count := int ((attempt # rest) ! (length (c # calls) - 1)) \<rparr>) \<and>
                  (if succeeded r0 then rs_memory st' (memory_key s) = Some (r_output r0)
                   else length (c # calls) = length (attempt # rest)))"
        proof (cases out)
          case (Inl e)
          with res show ?thesis by auto
        next
          case out: (Inr lr)
          show ?thesis
          proof (cases "calls = []")
            case True
            with res out Inr False show ?thesis by auto
          next
            case ne: False
            then have "length calls - 1 < length calls" by (cases calls) auto
            with ne res out show ?thesis by (auto simp: nth_Cons')
          qed
        qed
      qed
    qed
  qed
qed

text \<open>What running a task step does: the calls it makes, and the one record it adds
  when the last call returned.\<close>

lemma execute_agent_step_effect:
  assumes "execute_agent_step s st = (out, st')"
  shows "\<exists>calls. exec_log st' = exec_log st @ map (Pair (step_id s)) calls \<and>
     length calls \<le> nat (max_retries s) \<and>
     list_all not_completed (butlast calls) \<and>
     (\<forall>c \<in> set calls. \<exists>m w m' w'. execute (agent s) (step_id s) m w = (c, m', w')) \<and>
     stdin st' = stdin st \<and> stdout st' = stdout st \<and>
     (case out of
        Inl e \<Rightarrow> rs_trace st' = rs_trace st \<and>
          (if calls = [] then e = Exception attribute_error \<and> max_retries s \<le> 0 \<and> st' = st
           else last calls = Inl e)
      | Inr r \<Rightarrow> calls \<noteq> [] \<and>
          (\<exists>r0. last calls = Inr r0 \<and> r = r0 \<lparr> r_retry_count := int (length calls) - 1 \<rparr> \<and>
             rs_trace st' = add_step (rs_trace st) (step_trace_of s (rs_memory st) r) \<and>
             (if succeeded r0 then rs_memory st' (memory_key s) = Some (r_output r0)
              else int (length calls) = max_retries s)))"
proof -
  let ?atts = "[0 ..< nat (max_retries s)]"
  obtain lo st1 where rl: "retry_loop s ?atts None st = (lo, st1)"
    by (cases "retry_loop s ?atts None st") auto
  from retry_loop_calls[OF rl] obtain calls where
    log: "exec_log st1 = exec_log st @ map (Pair (step_id s)) calls"
    and len: "length calls \<le> length ?atts"
    and nc: "list_all not_completed (butlast calls)"
    and tr: "rs_trace st1 = rs_trace st" "stdin st1 = stdin st" "stdout st1 = stdout st"
    and exs: "\<forall>c \<in> set calls. \<exists>m w m' w'. execute (agent s) (step_id s) m w = (c, m', w')"
    and res: "(case lo of
        Inl e \<Rightarrow> calls \<noteq> [] \<and> last calls = Inl e
      | Inr lr \<Rightarrow>
          (if calls = [] then ?atts = [] \<and> lr = None \<and> st1 = st
           else \<exists>r0. last calls = Inr r0 \<and>
                  lr = Some (r0 \<lparr> r_retry_count := int (?atts ! (length calls - 1)) \<rparr>) \<and>
                  (if succeeded r0 then rs_memory st1 (memory_key s) = Some (r_output r0)
                   else length calls = length ?atts)))"
    by blast
  have le: "length calls \<le> nat (max_retries s)" using len by simp
  have idx: "int (?atts ! (length calls - 1)) = int (length calls) - 1" if "calls \<noteq> []"
  proof -
    from that have "1 \<le> length calls" by (cases calls) auto
    with len show ?thesis by (simp add: of_nat_diff)
  qed
  show ?thesis
  proof (cases lo)
    case (Inl e)
    with rl assms have "out = Inl e" "st' = st1"
      by (auto simp: execute_agent_step_def Let_def)
    with Inl res log le nc tr exs show ?thesis
      by (intro exI[of _ calls]) auto
  next
    case (Inr lr)
    show ?thesis
    proof (cases "calls = []")
      case True
      with res Inr have "lr = None" "st1 = st" "?atts = []" by auto
      with rl assms Inr have "out = Inl (Exception attribute_error)" "st' = st" "max_retries s \<le> 0"
        by (auto simp: execute_agent_step_def Let_def)
      with True show ?thesis by (intro exI[of _ "[]"]) auto
    next
      case ne: False
      with res Inr idx obtain r0 where
        r0: "last calls = Inr r0" "lr = Some (r0 \<lparr> r_retry_count := int (length calls) - 1 \<rparr>)"
          "if succeeded r0 then rs_memory st1 (memory_key s) = Some (r_output r0)
           else length calls = length ?atts"
        by auto
      let ?r = "r0 \<lparr> r_retry_count := int (length calls) - 1 \<rparr>"
      from rl assms Inr r0(2) have out: "out = Inr ?r"
        and st': "st' = st1 \<lparr> rs_trace := add_step (rs_trace st1) (step_trace_of s (rs_memory st) ?r) \<rparr>"
        by (auto simp: execute_agent_step_def Let_def snapshot_def)
      have pos: "0 < length calls" using ne by simp
      have fin: "if succeeded r0 then rs_memory st' (memory_key s) = Some (r_output r0)
                else int (length calls) = max_retries s"
        using r0(3) st' pos by (auto split: if_splits)
      show ?thesis
      proof (intro exI[of _ calls] conjI)
        show "exec_log st' = exec_log st @ map (Pair (step_id s)) calls" using log st' by simp
        show "length calls \<le> nat (max_retries s)" by (rule le)
        show "list_all not_completed (butlast calls)" by (rule nc)
        show "\<forall>c \<in> set calls. \<exists>m w m' w'. execute (agent s) (step_id s) m w = (c, m', w')" by (rule exs)
        show "stdin st' = stdin st" "stdout st' = stdout st" using tr st' by simp_all
        show "case out of
        Inl e \<Rightarrow> rs_trace st' = rs_trace st \<and>
          (if calls = [] then e = Exception attribute_error \<and> max_retries s \<le> 0 \<and> st' = st
           else last calls = Inl e)
      | Inr r \<Rightarrow> calls \<noteq> [] \<and>
          (\<exists>r0. last calls = Inr r0 \<and> r = r0 \<lparr> r_retry_count := int (length calls) - 1 \<rparr> \<and>
             rs_trace st' = add_step (rs_trace st) (step_trace_of s (rs_memory st) r) \<and>
             (if succeeded r0 then rs_memory st' (memory_key s) = Some (r_output r0)
              else int (length calls) = max_retries s))"
          unfolding out sum.case
          using ne r0(1) fin st' tr by (intro conjI exI[of _ r0]) simp_all
      qed
    qed
  qed
qed

text \<open>The engine writes the memory only on a COMPLETED result: what the executor leaves
  alone stays as it was.\<close>

lemma retry_loop_memory:
  assumes keep: "\<forall>m w c m' w'. execute (agent s) (step_id s) m w = (c, m', w') \<longrightarrow> m' k = m k"
    and "retry_loop s atts lst st = (out, st')"
  shows "rs_memory st' k = rs_memory st k \<or> (\<exists>r. out = Inr (Some r) \<and> succeeded r)"
  using assms(2)
proof (induction atts arbitrary: lst st)
  case Nil
  then show ?case by simp
next
  case (Cons attempt rest)
  obtain c m' w' where
    ex: "execute (agent s) (step_id s) (rs_memory st) (world st) = (c, m', w')" and
    inv: "invoke s st = (c, st \<lparr> rs_memory := m', world := w', exec_log := exec_log st @ [(step_id s, c)] \<rparr>)"
    by (rule invoke_cases)
  from keep ex have k: "m' k = rs_memory st k" by blast
  show ?case
  proof (cases c)
    case (Inl e)
    with Cons.prems inv k show ?thesis by auto
  next
    case (Inr r0)
    show ?thesis
    proof (cases "succeeded r0")
      case True
      with Cons.prems inv Inr show ?thesis by (auto simp: succeeded_def Let_def)
    next
      case False
      with Cons.prems inv Inr have
        "retry_loop s rest (Some (r0 \<lparr> r_retry_count := int attempt \<rparr>))
           (st \<lparr> rs_memory := m', world := w', exec_log := exec_log st @ [(step_id s, c)] \<rparr>) = (out, st')"
        by (auto simp: succeeded_def Let_def)
      from Cons.IH[OF this] k show ?thesis by auto
    qed
  qed
qed

lemma execute_agent_step_memory:
  assumes keep: "\<forall>m w c m' w'. execute (agent s) (step_id s) m w = (c, m', w') \<longrightarrow> m' k = m k"
    and "execute_agent_step s st = (out, st')"
  shows "rs_memory st' k = rs_memory st k \<or> (\<exists>r. out = Inr r \<and> succeeded r)"
proof -
  obtain lo st1 where rl: "retry_loop s [0 ..< nat (max_retries s)] None st = (lo, st1)"
    by (cases "retry_loop s [0 ..< nat (max_retries s)] None st") auto
  from retry_loop_memory[OF keep rl] rl assms(2) show ?thesis
    by (auto simp: execute_agent_step_def Let_def split: sum.splits option.splits)
qed

text \<open>
  C5. A task step with at least one attempt allowed calls its executor at least once and
  at most \<open>max_retries\<close> times; every call but the last returned a result that was not
  COMPLETED, so the calls stop at the first COMPLETED result. When the last call returned,
  one record is added whose \<open>retry_count\<close> is the index of that call and whose status,
  output and error are those of its result; a COMPLETED result is written to the memory
  at the step's key, and a result that is not COMPLETED means that all \<open>max_retries\<close>
  attempts were used.
\<close>

theorem retry_protocol:
  assumes "1 \<le> max_retries s" and "execute_agent_step s st = (out, st')"
  shows "\<exists>calls. exec_log st' = exec_log st @ map (Pair (step_id s)) calls \<and>
     1 \<le> length calls \<and> int (length calls) \<le> max_retries s \<and>
     list_all not_completed (butlast calls) \<and>
     (case out of
        Inl e \<Rightarrow> last calls = Inl e \<and> steps (rs_trace st') = steps (rs_trace st)
      | Inr r \<Rightarrow>
          (\<exists>r0 rec. last calls = Inr r0 \<and> r = r0 \<lparr> r_retry_count := int (length calls) - 1 \<rparr> \<and>
             steps (rs_trace st') = steps (rs_trace st) @ [rec] \<and>
             t_step_id rec = step_id s \<and> t_input_snapshot rec = rs_memory st \<and>
             t_status rec = r_status r0 \<and> t_output rec = r_output r0 \<and>
             t_error rec = r_error r0 \<and> t_retry_count rec = int (length calls) - 1 \<and>
             (if succeeded r0 then rs_memory st' (memory_key s) = Some (r_output r0)
              else int (length calls) = max_retries s)))"
proof -
  from execute_agent_step_effect[OF assms(2)] obtain calls where
    log: "exec_log st' = exec_log st @ map (Pair (step_id s)) calls"
    and len: "length calls \<le> nat (max_retries s)"
    and nc: "list_all not_completed (butlast calls)"
    and res: "(case out of
        Inl e \<Rightarrow> rs_trace st' = rs_trace st \<and>
          (if calls = [] then e = Exception attribute_error \<and> max_retries s \<le> 0 \<and> st' = st
           else last calls = Inl e)
      | Inr r \<Rightarrow> calls \<noteq> [] \<and>
          (\<exists>r0. last calls = Inr r0 \<and> r = r0 \<lparr> r_retry_count := int (length calls) - 1 \<rparr> \<and>
             rs_trace st' = add_step (rs_trace st) (step_trace_of s (rs_memory st) r) \<and>
             (if succeeded r0 then rs_memory st' (memory_key s) = Some (r_output r0)
              else int (length calls) = max_retries s)))"
    by blast
  have ne: "calls \<noteq> []" using res assms(1) by (cases out) (auto split: if_splits)
  then have pos: "1 \<le> length calls" by (cases calls) auto
  have le: "int (length calls) \<le> max_retries s" using len assms(1) by simp
  show ?thesis
  proof (cases out)
    case (Inl e)
    with res ne log pos le nc show ?thesis by (intro exI[of _ calls]) auto
  next
    case (Inr r)
    with res obtain r0 where
      r0: "last calls = Inr r0" "r = r0 \<lparr> r_retry_count := int (length calls) - 1 \<rparr>"
        "rs_trace st' = add_step (rs_trace st) (step_trace_of s (rs_memory st) r)"
        "if succeeded r0 then rs_memory st' (memory_key s) = Some (r_output r0)
         else int (length calls) = max_retries s"
      by auto
    show ?thesis
    proof (intro exI[of _ calls] conjI)
      show "exec_log st' = exec_log st @ map (Pair (step_id s)) calls" by (rule log)
      show "1 \<le> length calls" by (rule pos)
      show "int (length calls) \<le> max_retries s" by (rule le)
      show "list_all not_completed (butlast calls)" by (rule nc)
      show "case out of
        Inl e \<Rightarrow> last calls = Inl e \<and> steps (rs_trace st') = steps (rs_trace st)
      | Inr r \<Rightarrow>
          (\<exists>r0 rec. last calls = Inr r0 \<and> r = r0 \<lparr> r_retry_count := int (length calls) - 1 \<rparr> \<and>
             steps (rs_trace st') = steps (rs_trace st) @ [rec] \<and>
             t_step_id rec = step_id s \<and> t_input_snapshot rec = rs_memory st \<and>
             t_status rec = r_status r0 \<and> t_output rec = r_output r0 \<and>
             t_error rec = r_error r0 \<and> t_retry_count rec = int (length calls) - 1 \<and>
             (if succeeded r0 then rs_memory st' (memory_key s) = Some (r_output r0)
              else int (length calls) = max_retries s))"
        unfolding Inr sum.case
        using r0 by (intro exI[of _ r0] exI[of _ "step_trace_of s (rs_memory st) r"])
          (simp add: add_step_def step_trace_of_def)
    qed
  qed
qed

theorem retry_protocol_witness:
  "1 \<le> max_retries flaky_step \<and>
   map (map_sum id r_status \<circ> snd) (exec_log (snd (execute_agent_step flaky_step flaky_start))) = [Inr FAILED, Inr COMPLETED] \<and>
   map t_retry_count (steps (rs_trace (snd (execute_agent_step flaky_step flaky_start)))) = [1] \<and>
   rs_memory (snd (execute_agent_step flaky_step flaky_start)) ''final_result'' = Some (PDict [(''ok'', PBool True)]) \<and>
   (\<exists>calls. exec_log (snd (execute_agent_step flaky_step flaky_start)) =
        exec_log flaky_start @ map (Pair (step_id flaky_step)) calls \<and>
     1 \<le> length calls \<and> int (length calls) \<le> max_retries flaky_step \<and>
     list_all not_completed (butlast calls) \<and>
     (case fst (execute_agent_step flaky_step flaky_start) of
        Inl e \<Rightarrow> last calls = Inl e \<and>
          steps (rs_trace (snd (execute_agent_step flaky_step flaky_start))) = steps (rs_trace flaky_start)
      | Inr r \<Rightarrow>
          (\<exists>r0 rec. last calls = Inr r0 \<and> r = r0 \<lparr> r_retry_count := int (length calls) - 1 \<rparr> \<and>
             steps (rs_trace (snd (execute_agent_step flaky_step flaky_start))) =
               steps (rs_trace flaky_start) @ [rec] \<and>
             t_step_id rec = step_id flaky_step \<and> t_input_snapshot rec = rs_memory flaky_start \<and>
             t_status rec = r_status r0 \<and> t_output rec = r_output r0 \<and>
             t_error rec = r_error r0 \<and> t_retry_count rec = int (length calls) - 1 \<and>
             (if succeeded r0
              then rs_memory (snd (execute_agent_step flaky_step flaky_start)) (memory_key flaky_step) =
                     Some (r_output r0)
              else int (length calls) = max_retries flaky_step))))"
proof -
  have h1: "1 \<le> max_retries flaky_step" by (simp add: fixture_defs)
  have h2: "execute_agent_step flaky_step flaky_start =
              (fst (execute_agent_step flaky_step flaky_start), snd (execute_agent_step flaky_step flaky_start))"
    by simp
  have ev: "map (map_sum id r_status \<circ> snd) (exec_log (snd (execute_agent_step flaky_step flaky_start))) = [Inr FAILED, Inr COMPLETED]"
    "map t_retry_count (steps (rs_trace (snd (execute_agent_step flaky_step flaky_start)))) = [1]"
    "rs_memory (snd (execute_agent_step flaky_step flaky_start)) ''final_result'' = Some (PDict [(''ok'', PBool True)])"
    by (simp_all add: engine_defs fixture_defs upt_conv_Cons)
  from retry_protocol[OF h1 h2] h1 ev show ?thesis by blast
qed

section \<open>The step loop\<close>

text \<open>The ways through the loop body: the condition raises, says no, or says yes.\<close>

lemma should_run_cases:
  obtains (raises) e where "step_should_run s m = Inl e"
  | (skips) "step_should_run s m = Inr False"
  | (runs) "step_should_run s m = Inr True"
proof (cases "step_should_run s m")
  case (Inl e)
  then show ?thesis by (rule raises)
next
  case (Inr b)
  then show ?thesis using skips runs by (cases b) auto
qed

lemma process_step_raise:
  "step_should_run s (rs_memory st) = Inl e \<Longrightarrow> process_step s i st = Some (Raise e, st)"
  by (simp add: process_step_def)

lemma process_step_skip:
  "step_should_run s (rs_memory st) = Inr False \<Longrightarrow>
     process_step s i st = Some (Next, record_skipped (id_of s) st)"
  by (simp add: process_step_def)

lemma process_step_gate:
  "gate_should_run g (rs_memory st) = Inr True \<Longrightarrow>
   process_step (Gate g) i st =
     (case handle_human_gate g i st of
        None \<Rightarrow> None
      | Some (Inl e, st') \<Rightarrow> Some (Raise e, st')
      | Some (Inr approved, st') \<Rightarrow>
          if \<not> approved
          then Some (Return WF_CANCELLED,
                     st' \<lparr> rs_trace := trace_complete (rs_trace st') WF_CANCELLED None \<rparr>)
          else Some (Next, st'))"
  by (simp add: process_step_def step_should_run_def)

lemma process_step_agent:
  "should_run a (rs_memory st) = Inr True \<Longrightarrow>
   process_step (Agent a) i st =
     (case execute_agent_step a st of
        (Inl e, st') \<Rightarrow> Some (Raise e, st')
      | (Inr result, st') \<Rightarrow>
          if failed result \<and> required a
          then Some (Return WF_FAILED,
                 st' \<lparr> rs_trace := trace_complete (rs_trace st') WF_FAILED
                         (Some (required_failed_msg (step_id a) (r_error result))) \<rparr>)
          else Some (Next, st'))"
  by (auto simp: process_step_def step_should_run_def Let_def split: prod.splits sum.splits)

lemma execute_steps_append:
  "execute_steps (pre @ ss) i st =
     (case execute_steps pre i st of
        None \<Rightarrow> None
      | Some (Next, st1) \<Rightarrow> execute_steps ss i st1
      | Some (Return ws, st1) \<Rightarrow> Some (Return ws, st1)
      | Some (Raise e, st1) \<Rightarrow> Some (Raise e, st1))"
  by (induction pre arbitrary: st) (auto split: option.splits flow.splits)

text \<open>The console input is only ever consumed, so a channel that always answers in the
  end lets every step, and the whole loop, return.\<close>

lemma process_step_stdin:
  assumes "process_step s i st = Some (fl, st')"
  shows "\<exists>k. stdin st' = sdrop k (stdin st)"
proof (cases rule: should_run_cases[of s "rs_memory st"])
  case (raises e)
  with assms show ?thesis
    by (auto simp: process_step_raise intro: exI[of _ 0])
next
  case skips
  with assms show ?thesis
    by (auto simp: process_step_skip record_skipped_def intro: exI[of _ 0])
next
  case runs
  show ?thesis
  proof (cases s)
    case (Agent a)
    obtain out st1 where e: "execute_agent_step a st = (out, st1)"
      by (cases "execute_agent_step a st") auto
    from execute_agent_step_effect[OF e] have "stdin st1 = stdin st" by blast
    with assms runs Agent e show ?thesis
      by (auto simp: process_step_agent step_should_run_def split: sum.splits if_splits intro: exI[of _ 0])
  next
    case (Gate g)
    with assms runs obtain y where h: "handle_human_gate g i st = Some y" and "stdin st' = stdin (snd y)"
      by (auto simp: process_step_gate step_should_run_def split: option.splits sum.splits if_splits)
    with handle_human_gate_frame[OF h] show ?thesis by (auto simp: gate_frame_def)
  qed
qed

lemma responsive_sdrop: "responsive inp \<Longrightarrow> responsive (sdrop k inp)"
  unfolding responsive_def
proof
  fix j assume a: "\<forall>k. \<exists>n. decisive (sdrop k inp !! n)"
  have "sdrop j (sdrop k inp) = sdrop (k + j) inp" by (simp add: sdrop_add)
  with a show "\<exists>n. decisive (sdrop j (sdrop k inp) !! n)" by metis
qed

lemma responsive_now: "responsive inp \<Longrightarrow> \<exists>n. decisive (inp !! n)"
  unfolding responsive_def by (metis sdrop.simps(1))

lemma process_step_returns:
  fixes st :: "'w run_state"
  assumes "\<not> i \<or> responsive (stdin st)"
  shows "process_step s i st \<noteq> None"
proof (cases rule: should_run_cases[of s "rs_memory st"])
  case (raises e)
  then show ?thesis by (simp add: process_step_raise)
next
  case skips
  then show ?thesis by (simp add: process_step_skip)
next
  case runs
  show ?thesis
  proof (cases s)
    case (Agent a)
    with runs show ?thesis
      by (auto simp: process_step_agent step_should_run_def split: prod.splits sum.splits)
  next
    case (Gate g)
    from assms have "\<not> i \<or> \<not> require_approval g \<or> (\<exists>n. decisive (stdin st !! n))"
      using responsive_now by blast
    from handle_human_gate_returns[OF this] Gate runs show ?thesis
      by (auto simp: process_step_gate step_should_run_def split: option.splits sum.splits)
  qed
qed

lemma execute_steps_returns:
  fixes st :: "'w run_state"
  assumes "\<not> i \<or> responsive (stdin st)"
  shows "execute_steps ss i st \<noteq> None"
  using assms
proof (induction ss arbitrary: st)
  case Nil
  then show ?case by simp
next
  case (Cons s ss)
  from process_step_returns[OF Cons.prems, of s] obtain fl st1 where
    p: "process_step s i st = Some (fl, st1)" by (cases "process_step s i st") auto
  from process_step_stdin[OF p] Cons.prems have "\<not> i \<or> responsive (stdin st1)"
    using responsive_sdrop by metis
  from Cons.IH[OF this] p show ?case by (cases fl) auto
qed

text \<open>An early return has finalized the trace, as cancelled or as failed with a message.\<close>

lemma process_step_return:
  assumes "process_step s i st = Some (Return ws, st')"
  shows "(ws = WF_CANCELLED \<and> error (rs_trace st') = None \<or>
          ws = WF_FAILED \<and> error (rs_trace st') \<noteq> None) \<and>
         status (rs_trace st') = ws \<and> completed (rs_trace st')"
proof (cases rule: should_run_cases[of s "rs_memory st"])
  case (raises e)
  with assms show ?thesis by (simp add: process_step_raise)
next
  case skips
  with assms show ?thesis by (simp add: process_step_skip)
next
  case runs
  show ?thesis
  proof (cases s)
    case (Agent a)
    with assms runs show ?thesis
      by (auto simp: process_step_agent step_should_run_def trace_complete_def
               split: prod.splits sum.splits if_splits)
  next
    case (Gate g)
    with assms runs show ?thesis
      by (auto simp: process_step_gate step_should_run_def trace_complete_def
               split: option.splits sum.splits if_splits)
  qed
qed

lemma execute_steps_return:
  assumes "execute_steps ss i st = Some (Return ws, st')"
  shows "(ws = WF_CANCELLED \<and> error (rs_trace st') = None \<or>
          ws = WF_FAILED \<and> error (rs_trace st') \<noteq> None) \<and>
         status (rs_trace st') = ws \<and> completed (rs_trace st')"
  using assms
proof (induction ss arbitrary: st)
  case Nil
  then show ?case by simp
next
  case (Cons s ss)
  then show ?case
    by (auto split: option.splits flow.splits dest: process_step_return)
qed

text \<open>
  Where a raise of the loop body comes from: the dialog only ends on a decisive entry of
  the console, and raises what \<open>input\<close> raised; a gate raises that, or what its summary
  raised outside \<open>Exception\<close>; a task step raises what its executor raised, or the
  \<open>AttributeError\<close> of a step without attempts; a condition only what it raised outside
  \<open>Exception\<close>. So steps and a console that never raise outside \<open>Exception\<close> make the
  loop raise \<open>Exception\<close>s only.
\<close>

lemma ask_loop_end:
  fixes st :: "'w run_state"
  assumes "ask_loop st = Some y"
  shows "dialog_end st y"
proof (rule ask_loop.raw_induct[where P = dialog_end, OF _ assms])
  fix ask :: "'w run_state \<Rightarrow> ((exc + bool) \<times> 'w run_state) option" and st y
  assume IH: "\<And>st y. ask st = Some y \<Longrightarrow> dialog_end st y"
  assume step: "(let st1 = st \<lparr> stdin := stl (stdin st), stdout := stdout st @ [ask_prompt] \<rparr>
      in case shd (stdin st) of
           Inl e \<Rightarrow> Some (Inl e, st1)
         | Inr response \<Rightarrow>
             if response \<in> set yes_words
             then Some (Inr True,
                        st1 \<lparr> rs_trace := (rs_trace st1)
                          \<lparr> human_gates_approved := human_gates_approved (rs_trace st1) + 1 \<rparr> \<rparr>)
             else if response \<in> set no_words
             then Some (Inr False, st1)
             else ask (st1 \<lparr> stdout := stdout st1 @ [ask_again] \<rparr>)) = Some y"
  let ?st1 = "st \<lparr> stdin := stl (stdin st), stdout := stdout st @ [ask_prompt] \<rparr>"
  show "dialog_end st y"
  proof (cases "shd (stdin st)")
    case (Inl e)
    with step have "fst y = Inl e" by (auto simp: Let_def)
    with Inl show ?thesis
      unfolding dialog_end_def by (intro exI[of _ 0]) (simp add: decisive_def)
  next
    case (Inr response)
    show ?thesis
    proof (cases "response \<in> set yes_words \<or> response \<in> set no_words")
      case True
      with step Inr have "\<exists>b. fst y = Inr b" by (auto simp: Let_def split: if_splits)
      with Inr True show ?thesis
        unfolding dialog_end_def by (intro exI[of _ 0]) (auto simp: decisive_def)
    next
      case False
      with step Inr have "ask (?st1 \<lparr> stdout := stdout ?st1 @ [ask_again] \<rparr>) = Some y"
        by (simp add: Let_def)
      from IH[OF this] have "dialog_end (?st1 \<lparr> stdout := stdout ?st1 @ [ask_again] \<rparr>) y" .
      then obtain n where
        "decisive (stl (stdin st) !! n)"
        "\<forall>e. fst y = Inl e \<longrightarrow> stl (stdin st) !! n = Inl e"
        unfolding dialog_end_def by auto
      then show ?thesis
        unfolding dialog_end_def by (intro exI[of _ "Suc n"]) simp
    qed
  qed
qed

lemma ask_loop_never:
  fixes st :: "'w run_state"
  assumes "\<forall>n. \<not> decisive (stdin st !! n)"
  shows "ask_loop st = None"
proof (cases "ask_loop st")
  case None
  then show ?thesis .
next
  case (Some y)
  from ask_loop_end[OF Some] assms show ?thesis by (auto simp: dialog_end_def)
qed

lemma handle_human_gate_raised:
  assumes "handle_human_gate g i st = Some (Inl e, st')"
  shows "prompt_fn g (rs_memory st) = Inl e \<and> interrupted (prompt_fn g (rs_memory st)) \<or>
         (\<exists>n. stdin st !! n = Inl e)"
proof (cases "\<not> i \<or> \<not> require_approval g")
  case True
  with assms show ?thesis by (auto simp: handle_human_gate_def Let_def)
next
  case False
  show ?thesis
  proof (cases "build_summary g (rs_memory st)")
    case (Inl e')
    with assms False have "e' = e" by (auto simp: handle_human_gate_def Let_def)
    with Inl show ?thesis
      by (auto simp: build_summary_def interrupted_def split: sum.splits exc.splits)
  next
    case (Inr summary)
    with assms False obtain st2 where a: "ask_loop st2 = Some (Inl e, st')" and "stdin st2 = stdin st"
      by (auto simp: handle_human_gate_def Let_def)
    with ask_loop_end[OF a] show ?thesis by (auto simp: dialog_end_def)
  qed
qed

lemma handle_human_gate_never:
  fixes st :: "'w run_state"
  assumes "i" "require_approval g" "\<not> interrupted (prompt_fn g (rs_memory st))"
    and "\<forall>n. \<not> decisive (stdin st !! n)"
  shows "handle_human_gate g i st = None"
proof -
  have "ask_loop st2 = None" if "stdin st2 = stdin st" for st2 :: "'w run_state"
    using ask_loop_never[of st2] assms(4) that by simp
  with assms(1-3) show ?thesis
    by (auto simp: handle_human_gate_def Let_def build_summary_def interrupted_def
             split: sum.splits exc.splits)
qed

lemma execute_agent_step_raised:
  assumes "execute_agent_step a st = (Inl e, st')"
  shows "e = Exception attribute_error \<or>
         (\<exists>m w m' w'. execute (agent a) (step_id a) m w = (Inl e, m', w'))"
proof -
  from execute_agent_step_effect[OF assms] obtain calls where
    exs: "\<forall>c \<in> set calls. \<exists>m w m' w'. execute (agent a) (step_id a) m w = (c, m', w')"
    and r: "if calls = [] then e = Exception attribute_error \<and> max_retries a \<le> 0 \<and> st' = st
            else last calls = Inl e"
    by auto
  show ?thesis
  proof (cases "calls = []")
    case True
    with r show ?thesis by simp
  next
    case False
    with r have "Inl e \<in> set calls" by (metis last_in_set)
    with exs show ?thesis by blast
  qed
qed

lemma should_run_raised:
  assumes "step_should_run s m = Inl e"
  shows "\<exists>c. (case s of Agent a \<Rightarrow> condition a | Gate g \<Rightarrow> g_condition g) = Some c \<and>
             c m = Inl e \<and> interrupted (c m)"
  using assms
  by (cases s)
     (auto simp: step_should_run_def should_run_def gate_should_run_def interrupted_def
           split: option.splits sum.splits exc.splits)

lemma quiet_input_sdrop: "quiet_input inp \<Longrightarrow> quiet_input (sdrop k inp)"
  by (simp add: quiet_input_def sdrop_snth)

lemma process_step_quiet:
  assumes q: "quiet_step s" and qi: "quiet_input (stdin st)"
    and p: "process_step s i st = Some (Raise e, st')"
  shows "\<exists>msg. e = Exception msg"
proof (cases rule: should_run_cases[of s "rs_memory st"])
  case (raises e')
  from should_run_raised[OF raises] q have False
    by (cases s) (auto simp: quiet_step_def)
  then show ?thesis ..
next
  case skips
  with p show ?thesis by (simp add: process_step_skip)
next
  case runs
  show ?thesis
  proof (cases s)
    case (Agent a)
    with p runs obtain st1 where ex: "execute_agent_step a st = (Inl e, st1)"
      by (auto simp: process_step_agent step_should_run_def split: prod.splits sum.splits if_splits)
    from execute_agent_step_raised[OF ex] show ?thesis
    proof
      assume "e = Exception attribute_error"
      then show ?thesis by blast
    next
      assume "\<exists>m w m' w'. execute (agent a) (step_id a) m w = (Inl e, m', w')"
      then obtain m w m' w' where "execute (agent a) (step_id a) m w = (Inl e, m', w')" by blast
      then have "fst (execute (agent a) (step_id a) m w) = Inl e" by simp
      with q Agent have "\<not> interrupted (Inl e :: exc + StepResult)"
        unfolding quiet_step_def by (simp only: step.case) metis
      then show ?thesis by (cases e) (auto simp: interrupted_def)
    qed
  next
    case (Gate g)
    with p runs obtain st1 where h: "handle_human_gate g i st = Some (Inl e, st1)"
      by (auto simp: process_step_gate step_should_run_def split: option.splits sum.splits if_splits)
    from handle_human_gate_raised[OF h] show ?thesis
    proof
      assume "prompt_fn g (rs_memory st) = Inl e \<and> interrupted (prompt_fn g (rs_memory st))"
      with q Gate show ?thesis by (auto simp: quiet_step_def)
    next
      assume "\<exists>n. stdin st !! n = Inl e"
      then obtain n where "stdin st !! n = Inl e" by blast
      with qi have "\<not> interrupted (Inl e :: exc + string)"
        unfolding quiet_input_def by metis
      then show ?thesis by (cases e) (auto simp: interrupted_def)
    qed
  qed
qed

lemma execute_steps_quiet:
  assumes "list_all quiet_step ss" and "quiet_input (stdin st)"
    and "execute_steps ss i st = Some (Raise e, st')"
  shows "\<exists>msg. e = Exception msg"
  using assms
proof (induction ss arbitrary: st)
  case Nil
  then show ?case by simp
next
  case (Cons s ss)
  from Cons.prems(3) obtain fl st1 where p: "process_step s i st = Some (fl, st1)"
    by (auto split: option.splits)
  show ?case
  proof (cases fl)
    case Next
    from process_step_stdin[OF p] Cons.prems(2) have "quiet_input (stdin st1)"
      using quiet_input_sdrop by metis
    moreover from Cons.prems(3) p Next have "execute_steps ss i st1 = Some (Raise e, st')" by simp
    ultimately show ?thesis using Cons.IH Cons.prems(1) by simp
  next
    case (Return ws)
    with Cons.prems(3) p show ?thesis by simp
  next
    case (Raise e')
    with Cons.prems(3) p have "process_step s i st = Some (Raise e, st1)" by simp
    from process_step_quiet[OF _ Cons.prems(2) this] Cons.prems(1) show ?thesis by simp
  qed
qed

section \<open>The run\<close>

lemma responsive_console: "responsive (console answers)"
  unfolding responsive_def
proof
  fix k
  have "sdrop k (console answers) !! length answers = console answers !! (k + length answers)"
    by (simp add: sdrop_snth)
  also have "\<dots> = Inl eof_error"
    by (simp add: console_def shift_snth_ge)
  finally show "\<exists>n. decisive (sdrop k (console answers) !! n)"
    by (auto simp: decisive_def eof_error_def intro!: exI[of _ "length answers"])
qed

lemma execute_workflow_returns:
  fixes st :: "'w run_state"
  assumes "\<not> i \<or> responsive (stdin st)"
  shows "execute_workflow workflow i st \<noteq> None"
  using execute_steps_returns[OF assms, of "wf_steps workflow"]
  by (auto simp: execute_workflow_def split: option.splits flow.splits)

lemma execute_workflow_status:
  assumes "execute_workflow workflow i st = Some (Inr ws, st')"
  shows "(ws = WF_COMPLETED \<and> error (rs_trace st') = None \<or>
          ws = WF_CANCELLED \<and> error (rs_trace st') = None \<or>
          ws = WF_FAILED \<and> error (rs_trace st') \<noteq> None) \<and>
         status (rs_trace st') = ws \<and> completed (rs_trace st')"
proof (cases "execute_steps (wf_steps workflow) i st")
  case None
  with assms show ?thesis by (simp add: execute_workflow_def)
next
  case (Some p)
  obtain fl st1 where p: "p = (fl, st1)" by (cases p) auto
  show ?thesis
  proof (cases fl)
    case Next
    with assms Some p show ?thesis
      by (auto simp: execute_workflow_def trace_complete_def)
  next
    case (Return ws')
    with assms Some p have "ws' = ws" "st1 = st'" by (auto simp: execute_workflow_def)
    with Some p Return execute_steps_return[of "wf_steps workflow" i st ws st'] show ?thesis
      by auto
  next
    case (Raise e)
    with assms Some p show ?thesis by (simp add: execute_workflow_def)
  qed
qed


lemma execute_workflow_quiet:
  assumes "list_all quiet_step (wf_steps workflow)" and "quiet_input (stdin st)"
    and "execute_workflow workflow i st = Some (Inl e, st')"
  shows "\<exists>msg. e = Exception msg"
proof -
  from assms(3) have "execute_steps (wf_steps workflow) i st = Some (Raise e, st')"
    by (auto simp: execute_workflow_def split: option.splits flow.splits)
  from execute_steps_quiet[OF assms(1,2) this] show ?thesis .
qed

lemma quiet_console: "quiet_input (console answers)"
  unfolding quiet_input_def
proof
  fix n
  show "\<not> interrupted (console answers !! n)"
  proof (cases "n < length answers")
    case True
    then show ?thesis by (simp add: console_def interrupted_def shift_snth_less)
  next
    case False
    then show ?thesis by (simp add: console_def interrupted_def shift_snth_ge eof_error_def)
  qed
qed

lemma hesitant_never: "\<not> decisive (hesitant !! n)"
  by (simp add: hesitant_def decisive_def yes_words_def no_words_def)

text \<open>
  C3, as the code has it. For a name that is not registered \<open>run\<close> raises its
  \<open>ValueError\<close>, whatever the surroundings. For a registered name: when the step loop
  returns a status, \<open>run\<close> returns a result with that status, one of COMPLETED, FAILED and
  CANCELLED, which is also the status of the finalized trace; when the loop raises an
  \<open>Exception\<close>, \<open>run\<close> returns a FAILED result whose trace holds the message; when the
  loop raises an exception outside \<open>Exception\<close>, that exception leaves \<open>run\<close>. The loop
  ends, and \<open>run\<close> with it, when the run is non-interactive or the approval channel always
  gives, in the end, an approval, a rejection or an exception; \<open>run\<close> then returns a result
  whenever no condition, executor or summary of the workflow and no \<open>input\<close> raises
  outside \<open>Exception\<close>.
\<close>

theorem run_returns_terminal_status:
  "(map_of eng nm = None \<longrightarrow>
            run eng nm inp0 interactive w inp = Some (Inl (ValueError nm (map fst eng)))) \<and>
         (map_of eng nm = Some workflow \<and> (\<not> interactive \<or> responsive inp) \<longrightarrow>
            run eng nm inp0 interactive w inp \<noteq> None \<and>
            execute_workflow workflow interactive (init_state nm inp0 w inp) \<noteq> None) \<and>
         (map_of eng nm = Some workflow \<and>
          execute_workflow workflow interactive (init_state nm inp0 w inp) = Some (Inr ws, st1) \<longrightarrow>
            (\<exists>res st. run eng nm inp0 interactive w inp = Some (Inr (res, st)) \<and>
               res_status res = ws \<and>
               res_status res \<in> {WF_COMPLETED, WF_FAILED, WF_CANCELLED} \<and>
               status (res_trace res) = res_status res \<and> completed (res_trace res))) \<and>
         (map_of eng nm = Some workflow \<and>
          execute_workflow workflow interactive (init_state nm inp0 w inp) =
            Some (Inl (Exception e), st2) \<longrightarrow>
            (\<exists>res st. run eng nm inp0 interactive w inp = Some (Inr (res, st)) \<and>
               res_status res = WF_FAILED \<and> status (res_trace res) = WF_FAILED \<and>
               completed (res_trace res) \<and> error (res_trace res) = Some e)) \<and>
         (map_of eng nm = Some workflow \<and>
          execute_workflow workflow interactive (init_state nm inp0 w inp) =
            Some (Inl (BaseException e'), st3) \<longrightarrow>
            run eng nm inp0 interactive w inp = Some (Inl (Propagated e'))) \<and>
         (map_of eng nm = Some workflow \<and> (\<not> interactive \<or> responsive inp) \<and>
          list_all quiet_step (wf_steps workflow) \<and> quiet_input inp \<longrightarrow>
            (\<exists>res st. run eng nm inp0 interactive w inp = Some (Inr (res, st)) \<and>
               res_status res \<in> {WF_COMPLETED, WF_FAILED, WF_CANCELLED} \<and>
               status (res_trace res) = res_status res \<and> completed (res_trace res)))"
proof -
  have unreg: "map_of eng nm = None \<longrightarrow>
            run eng nm inp0 interactive w inp = Some (Inl (ValueError nm (map fst eng)))"
    by (simp add: run_def)
  have returned: "\<exists>res st. run eng nm inp0 interactive w inp = Some (Inr (res, st)) \<and>
               res_status res = ws \<and>
               res_status res \<in> {WF_COMPLETED, WF_FAILED, WF_CANCELLED} \<and>
               status (res_trace res) = res_status res \<and> completed (res_trace res)"
    if "map_of eng nm = Some workflow"
      "execute_workflow workflow interactive (init_state nm inp0 w inp) = Some (Inr ws, st1)"
    for ws st1
    using that execute_workflow_status[OF that(2)]
    by (auto simp: run_registered make_result_def)
  have caught: "\<exists>res st. run eng nm inp0 interactive w inp = Some (Inr (res, st)) \<and>
               res_status res = WF_FAILED \<and> status (res_trace res) = WF_FAILED \<and>
               completed (res_trace res) \<and> error (res_trace res) = Some e"
    if "map_of eng nm = Some workflow"
      "execute_workflow workflow interactive (init_state nm inp0 w inp) =
         Some (Inl (Exception e), st2)"
    for e st2
    using that by (simp add: run_registered make_result_def trace_complete_def)
  have escaped: "run eng nm inp0 interactive w inp = Some (Inl (Propagated e'))"
    if "map_of eng nm = Some workflow"
      "execute_workflow workflow interactive (init_state nm inp0 w inp) =
         Some (Inl (BaseException e'), st3)"
    for e' st3
    using that by (simp add: run_registered)
  have ends: "execute_workflow workflow interactive (init_state nm inp0 w inp) \<noteq> None"
    if "\<not> interactive \<or> responsive inp"
  proof -
    have "\<not> interactive \<or> responsive (stdin (init_state nm inp0 w inp))"
      using that by (simp add: init_state_def)
    from execute_workflow_returns[OF this] show ?thesis .
  qed
  have ends': "run eng nm inp0 interactive w inp \<noteq> None"
    if "map_of eng nm = Some workflow" "\<not> interactive \<or> responsive inp"
    using that(1) ends[OF that(2)]
    by (auto simp: run_registered split: option.splits sum.splits exc.splits)
  have quiet: "\<exists>res st. run eng nm inp0 interactive w inp = Some (Inr (res, st)) \<and>
               res_status res \<in> {WF_COMPLETED, WF_FAILED, WF_CANCELLED} \<and>
               status (res_trace res) = res_status res \<and> completed (res_trace res)"
    if r: "map_of eng nm = Some workflow" and a: "\<not> interactive \<or> responsive inp"
      and q: "list_all quiet_step (wf_steps workflow)" and qi: "quiet_input inp"
  proof -
    from ends[OF a] obtain out st' where
      ex: "execute_workflow workflow interactive (init_state nm inp0 w inp) = Some (out, st')"
      by (cases "execute_workflow workflow interactive (init_state nm inp0 w inp)") auto
    show ?thesis
    proof (cases out)
      case (Inr ws')
      with returned[OF r] ex show ?thesis by blast
    next
      case (Inl x)
      have "quiet_input (stdin (init_state nm inp0 w inp))" using qi by (simp add: init_state_def)
      from execute_workflow_quiet[OF q this] ex Inl obtain msg where "x = Exception msg" by blast
      with caught[OF r] ex Inl show ?thesis by auto
    qed
  qed
  from unreg returned caught escaped ends ends' quiet show ?thesis by blast
qed

theorem run_returns_terminal_status_witness:
  "responsive (console [''talvez'', ''nao'']) \<and> responsive (console []) \<and>
   map_of test_engine ''nonexistent'' = None \<and>
   run test_engine ''nonexistent'' Map.empty True 0 (console [''talvez'', ''nao'']) =
     Some (Inl (ValueError ''nonexistent'' (map fst test_engine))) \<and>
   map_of test_engine ''gate_workflow'' =
     Some (workflow_of ''gate_workflow'' [Agent classify_step, Gate gate, Agent done_step]) \<and>
   (\<exists>st1. execute_workflow (workflow_of ''gate_workflow'' [Agent classify_step, Gate gate, Agent done_step])
       True (init_state ''gate_workflow'' Map.empty 0 (console [''talvez'', ''nao''])) =
       Some (Inr WF_CANCELLED, st1)) \<and>
   (\<exists>res st. run test_engine ''gate_workflow'' Map.empty True 0 (console [''talvez'', ''nao'']) =
        Some (Inr (res, st)) \<and>
      res_status res = WF_CANCELLED \<and> status (res_trace res) = WF_CANCELLED \<and>
      completed (res_trace res)) \<and>
   map_of test_engine ''gate_only_workflow'' = Some (workflow_of ''gate_only_workflow'' [Gate gate]) \<and>
   (\<exists>st1. execute_workflow (workflow_of ''gate_only_workflow'' [Gate gate]) True
       (init_state ''gate_only_workflow'' Map.empty (0::nat) (console [])) =
       Some (Inl (Exception ''EOF when reading a line''), st1)) \<and>
   (\<exists>res st. run test_engine ''gate_only_workflow'' Map.empty True 0 (console []) =
        Some (Inr (res, st)) \<and>
      res_status res = WF_FAILED \<and> status (res_trace res) = WF_FAILED \<and>
      completed (res_trace res) \<and> error (res_trace res) = Some ''EOF when reading a line'') \<and>
   map_of test_engine ''interrupted_workflow'' =
     Some (workflow_of ''interrupted_workflow'' [Agent classify_step, Agent interrupted_step]) \<and>
   (\<exists>st1. execute_workflow
       (workflow_of ''interrupted_workflow'' [Agent classify_step, Agent interrupted_step]) True
       (init_state ''interrupted_workflow'' Map.empty 0 (console [])) =
       Some (Inl (BaseException []), st1)) \<and>
   run test_engine ''interrupted_workflow'' Map.empty True 0 (console []) =
     Some (Inl (Propagated [])) \<and>
   list_all quiet_step
     (wf_steps (workflow_of ''gate_workflow'' [Agent classify_step, Gate gate, Agent done_step])) \<and>
   quiet_input (console [''talvez'', ''nao'']) \<and>
   (\<exists>res st. run test_engine ''gate_workflow'' Map.empty True 0 (console [''talvez'', ''nao'']) =
        Some (Inr (res, st)) \<and>
      res_status res \<in> {WF_COMPLETED, WF_FAILED, WF_CANCELLED} \<and>
      status (res_trace res) = res_status res \<and> completed (res_trace res))"
proof -
  have h: "\<not> True \<or> responsive (console [''talvez'', ''nao''])"
    and h': "\<not> True \<or> responsive (console [])"
    by (simp_all add: responsive_console)
  have reg: "map_of test_engine ''nonexistent'' = None"
    "map_of test_engine ''gate_workflow'' =
       Some (workflow_of ''gate_workflow'' [Agent classify_step, Gate gate, Agent done_step])"
    "map_of test_engine ''gate_only_workflow'' = Some (workflow_of ''gate_only_workflow'' [Gate gate])"
    "map_of test_engine ''interrupted_workflow'' =
       Some (workflow_of ''interrupted_workflow'' [Agent classify_step, Agent interrupted_step])"
    by (simp_all add: fixture_defs register_def)
  obtain s1 where e1: "execute_workflow
      (workflow_of ''gate_workflow'' [Agent classify_step, Gate gate, Agent done_step])
       True (init_state ''gate_workflow'' Map.empty 0 (console [''talvez'', ''nao''])) =
       Some (Inr WF_CANCELLED, s1)"
    by (simp add: engine_defs fixture_defs ask_loop.simps)
  obtain s2 where e2: "execute_workflow (workflow_of ''gate_only_workflow'' [Gate gate]) True
       (init_state ''gate_only_workflow'' Map.empty (0::nat) (console [])) =
       Some (Inl (Exception ''EOF when reading a line''), s2)"
    by (simp add: engine_defs fixture_defs ask_loop.simps)
  obtain s3 where e3: "execute_workflow
       (workflow_of ''interrupted_workflow'' [Agent classify_step, Agent interrupted_step]) True
       (init_state ''interrupted_workflow'' Map.empty 0 (console [])) =
       Some (Inl (BaseException []), s3)"
    by (simp add: engine_defs fixture_defs)
  have q: "list_all quiet_step
     (wf_steps (workflow_of ''gate_workflow'' [Agent classify_step, Gate gate, Agent done_step]))"
    by (simp add: quiet_step_def interrupted_def fixture_defs)
  note qi = quiet_console[of "[''talvez'', ''nao'']"]
  note t0 = run_returns_terminal_status[where eng = test_engine and nm = "''nonexistent''"
      and ?inp0.0 = Map.empty and w = 0 and interactive = True
      and inp = "console [''talvez'', ''nao'']"]
  note t1 = run_returns_terminal_status[where eng = test_engine and nm = "''gate_workflow''"
      and interactive = True and inp = "console [''talvez'', ''nao'']"
      and workflow = "workflow_of ''gate_workflow'' [Agent classify_step, Gate gate, Agent done_step]"
      and ?inp0.0 = Map.empty and w = 0]
  note t2 = run_returns_terminal_status[where eng = test_engine
      and interactive = True and inp = "console []"
      and nm = "''gate_only_workflow''" and workflow = "workflow_of ''gate_only_workflow'' [Gate gate]"
      and ?inp0.0 = Map.empty and w = 0]
  note t3 = run_returns_terminal_status[where eng = test_engine
      and interactive = True and inp = "console []"
      and nm = "''interrupted_workflow''"
      and workflow = "workflow_of ''interrupted_workflow'' [Agent classify_step, Agent interrupted_step]"
      and ?inp0.0 = Map.empty and w = 0]
  from t0 reg(1) have a: "run test_engine ''nonexistent'' Map.empty True 0 (console [''talvez'', ''nao'']) =
     Some (Inl (ValueError ''nonexistent'' (map fst test_engine)))"
    by blast
  from t1[where ws = WF_CANCELLED and ?st1.0 = s1] reg(2) e1
  have b: "\<exists>res st. run test_engine ''gate_workflow'' Map.empty True 0 (console [''talvez'', ''nao'']) =
        Some (Inr (res, st)) \<and>
      res_status res = WF_CANCELLED \<and> status (res_trace res) = WF_CANCELLED \<and>
      completed (res_trace res)"
    by auto
  from t2[where e = "''EOF when reading a line''" and ?st2.0 = s2] reg(3) e2
  have c: "\<exists>res st. run test_engine ''gate_only_workflow'' Map.empty True 0 (console []) =
        Some (Inr (res, st)) \<and>
      res_status res = WF_FAILED \<and> status (res_trace res) = WF_FAILED \<and>
      completed (res_trace res) \<and> error (res_trace res) = Some ''EOF when reading a line''"
    by blast
  from t3[where e' = "[]" and ?st3.0 = s3] reg(4) e3
  have d: "run test_engine ''interrupted_workflow'' Map.empty True 0 (console []) =
     Some (Inl (Propagated []))"
    by blast
  from t1 reg(2) h q qi have e: "\<exists>res st. run test_engine ''gate_workflow'' Map.empty True 0 (console [''talvez'', ''nao'']) =
        Some (Inr (res, st)) \<and>
      res_status res \<in> {WF_COMPLETED, WF_FAILED, WF_CANCELLED} \<and>
      status (res_trace res) = res_status res \<and> completed (res_trace res)"
    by blast
  have E1: "\<exists>st1. execute_workflow (workflow_of ''gate_workflow'' [Agent classify_step, Gate gate, Agent done_step])
       True (init_state ''gate_workflow'' Map.empty 0 (console [''talvez'', ''nao''])) =
       Some (Inr WF_CANCELLED, st1)" using e1 by blast
  have E2: "\<exists>st1. execute_workflow (workflow_of ''gate_only_workflow'' [Gate gate]) True
       (init_state ''gate_only_workflow'' Map.empty (0::nat) (console [])) =
       Some (Inl (Exception ''EOF when reading a line''), st1)" using e2 by blast
  have E3: "\<exists>st1. execute_workflow
       (workflow_of ''interrupted_workflow'' [Agent classify_step, Agent interrupted_step]) True
       (init_state ''interrupted_workflow'' Map.empty 0 (console [])) =
       Some (Inl (BaseException []), st1)" using e3 by blast
  from responsive_console[of "[''talvez'', ''nao'']"] responsive_console[of "[]"]
    reg a E1 b E2 c E3 d q qi e
  show ?thesis by (intro conjI)
qed

text \<open>The claim as stated fails twice for a registered name: the \<open>KeyboardInterrupt\<close> of an
  executor leaves \<open>run\<close>, and an interactive run that is never answered with a yes or a no
  never returns.\<close>

theorem run_escape_counterexample:
  "map_of test_engine ''interrupted_workflow'' =
     Some (workflow_of ''interrupted_workflow'' [Agent classify_step, Agent interrupted_step]) \<and>
   run test_engine ''interrupted_workflow'' Map.empty False 0 (console []) =
     Some (Inl (Propagated [])) \<and>
   map_of test_engine ''gate_only_workflow'' = Some (workflow_of ''gate_only_workflow'' [Gate gate]) \<and>
   run test_engine ''gate_only_workflow'' Map.empty True 0 hesitant = None"
proof -
  have a: "map_of test_engine ''interrupted_workflow'' =
     Some (workflow_of ''interrupted_workflow'' [Agent classify_step, Agent interrupted_step])"
    "map_of test_engine ''gate_only_workflow'' = Some (workflow_of ''gate_only_workflow'' [Gate gate])"
    by (simp_all add: fixture_defs register_def)
  have b: "run test_engine ''interrupted_workflow'' Map.empty False 0 (console []) =
     Some (Inl (Propagated []))"
    by (simp add: engine_defs fixture_defs)
  have "handle_human_gate gate True (init_state ''gate_only_workflow'' Map.empty (0::nat) hesitant) = None"
    by (rule handle_human_gate_never)
       (simp_all add: gate_def gate_step_def review_prompt_def interrupted_def init_state_def
          hesitant_never)
  then have "execute_workflow (workflow_of ''gate_only_workflow'' [Gate gate]) True
      (init_state ''gate_only_workflow'' Map.empty (0::nat) hesitant) = None"
    by (simp add: execute_workflow_def workflow_of_def process_step_def step_should_run_def
          gate_should_run_def gate_def gate_step_def)
  with a(2) have c: "run test_engine ''gate_only_workflow'' Map.empty True 0 hesitant = None"
    by (simp add: run_registered)
  from a b c show ?thesis by simp
qed

section \<open>The error field of the result\<close>

text \<open>
  C10. The \<open>error\<close> field of a returned result is always \<open>None\<close>. The message of a failure
  is in the trace: the trace of a FAILED run has an error, that of any other run has none.
\<close>

theorem result_error_none:
  assumes "run eng nm inp0 i w inp = Some (Inr (res, st))"
  shows "res_error res = None \<and>
         (res_status res = WF_FAILED \<longrightarrow> error (res_trace res) \<noteq> None) \<and>
         (res_status res \<noteq> WF_FAILED \<longrightarrow> error (res_trace res) = None)"
  using assms
proof (cases rule: run_result_cases)
  case (1 workflow ws)
  from execute_workflow_status[OF 1(2)] 1(3) show ?thesis
    by (auto simp: make_result_def)
next
  case (2 workflow e st1)
  then show ?thesis by (simp add: make_result_def trace_complete_def)
qed

theorem result_error_none_witness:
  "run test_engine ''fail_workflow'' Map.empty False 0 (console []) =
     Some (Inr (the (result_of (run test_engine ''fail_workflow'' Map.empty False 0 (console []))),
                snd (projr (the (run test_engine ''fail_workflow'' Map.empty False 0 (console [])))))) \<and>
   res_status (the (result_of (run test_engine ''fail_workflow'' Map.empty False 0 (console [])))) = WF_FAILED \<and>
   res_error (the (result_of (run test_engine ''fail_workflow'' Map.empty False 0 (console [])))) = None \<and>
   error (res_trace (the (result_of (run test_engine ''fail_workflow'' Map.empty False 0 (console []))))) \<noteq> None"
proof -
  have h: "run test_engine ''fail_workflow'' Map.empty False 0 (console []) =
     Some (Inr (the (result_of (run test_engine ''fail_workflow'' Map.empty False 0 (console []))),
                snd (projr (the (run test_engine ''fail_workflow'' Map.empty False 0 (console []))))))"
    by (simp add: engine_defs fixture_defs upt_conv_Cons)
  have s: "res_status (the (result_of (run test_engine ''fail_workflow'' Map.empty False 0 (console [])))) = WF_FAILED"
    by (simp add: engine_defs fixture_defs upt_conv_Cons)
  from result_error_none[OF h] h s show ?thesis by blast
qed

section \<open>Gates and failures in a run\<close>

lemma handle_human_gate_keeps:
  assumes "handle_human_gate g i st = Some (out, st')"
  shows "rs_memory st' = rs_memory st" "steps (rs_trace st') = steps (rs_trace st)"
    "exec_log st' = exec_log st" "world st' = world st"
    "human_gates_encountered (rs_trace st') = human_gates_encountered (rs_trace st) + 1"
    "human_gates_approved (rs_trace st') =
       human_gates_approved (rs_trace st) + (if out = Inr True then 1 else 0)"
  using handle_human_gate_frame[OF assms] by (simp_all add: gate_frame_def)

text \<open>
  C4. Take a run whose steps before a gate all went on to the next step, and whose gate
  runs and gets a decision. The gate leaves the memory, the records and the executors
  alone. If the decision is a rejection, the run returns CANCELLED with the memory and
  the records as they stood at the gate (nothing written earlier is undone, no later
  step adds a record) and with no further call of any executor. If it is an approval,
  the loop goes on with the steps after the gate.
\<close>

theorem gate_rejection_cancels:
  assumes reg: "map_of eng nm = Some workflow"
    and ss: "wf_steps workflow = pre @ Gate g # post"
    and pre: "execute_steps pre i (init_state nm inp0 w inp) = Some (Next, st1)"
    and cond: "gate_should_run g (rs_memory st1) = Inr True"
    and gate: "handle_human_gate g i st1 = Some (Inr approved, st2)"
  shows "rs_memory st2 = rs_memory st1 \<and> steps (rs_trace st2) = steps (rs_trace st1) \<and>
         exec_log st2 = exec_log st1 \<and>
         (if approved
          then execute_steps (pre @ Gate g # post) i (init_state nm inp0 w inp) =
                 execute_steps post i st2
          else \<exists>res st. run eng nm inp0 i w inp = Some (Inr (res, st)) \<and>
                 res_status res = WF_CANCELLED \<and> status (res_trace res) = WF_CANCELLED \<and>
                 res_memory res = rs_memory st1 \<and>
                 steps (res_trace res) = steps (rs_trace st1) \<and>
                 exec_log st = exec_log st1)"
proof -
  note keep = handle_human_gate_keeps[OF gate]
  have step: "process_step (Gate g) i st1 =
      (if \<not> approved
       then Some (Return WF_CANCELLED,
                  st2 \<lparr> rs_trace := trace_complete (rs_trace st2) WF_CANCELLED None \<rparr>)
       else Some (Next, st2))"
    using cond gate by (simp add: process_step_gate)
  show ?thesis
  proof (cases approved)
    case True
    with step pre have "execute_steps (pre @ Gate g # post) i (init_state nm inp0 w inp) =
                 execute_steps post i st2"
      by (simp add: execute_steps_append)
    with True keep show ?thesis by simp
  next
    case False
    with step pre have "execute_steps (wf_steps workflow) i (init_state nm inp0 w inp) =
        Some (Return WF_CANCELLED,
              st2 \<lparr> rs_trace := trace_complete (rs_trace st2) WF_CANCELLED None \<rparr>)"
      by (simp add: ss execute_steps_append)
    then have "run eng nm inp0 i w inp =
        Some (Inr (make_result nm WF_CANCELLED
                     (st2 \<lparr> rs_trace := trace_complete (rs_trace st2) WF_CANCELLED None \<rparr>),
                   st2 \<lparr> rs_trace := trace_complete (rs_trace st2) WF_CANCELLED None \<rparr>))"
      using reg by (simp add: run_registered execute_workflow_def)
    with False keep show ?thesis
      by (simp add: make_result_def trace_complete_def)
  qed
qed

theorem gate_rejection_cancels_witness:
  "map_of test_engine ''gate_workflow'' =
     Some (workflow_of ''gate_workflow'' [Agent classify_step, Gate gate, Agent done_step]) \<and>
   execute_steps [Agent classify_step] True gate_start = Some (Next, at_gate True) \<and>
   gate_should_run gate (rs_memory (at_gate True)) = Inr True \<and>
   handle_human_gate gate True (at_gate True) = Some (Inr False, after_gate True) \<and>
   (\<exists>res st. run test_engine ''gate_workflow'' Map.empty True 0 (console [''talvez'', ''nao'']) =
        Some (Inr (res, st)) \<and>
      res_status res = WF_CANCELLED \<and> status (res_trace res) = WF_CANCELLED \<and>
      res_memory res = rs_memory (at_gate True) \<and>
      steps (res_trace res) = steps (rs_trace (at_gate True)) \<and>
      exec_log st = exec_log (at_gate True)) \<and>
   rs_memory (at_gate True) ''classification'' = Some classify_output \<and>
   map t_step_id (steps (rs_trace (at_gate True))) = [''classify''] \<and>
   map fst (exec_log (at_gate True)) = [''classify''] \<and>
   execute_steps [Agent classify_step] False gate_start = Some (Next, at_gate False) \<and>
   handle_human_gate gate False (at_gate False) = Some (Inr True, after_gate False) \<and>
   execute_steps ([Agent classify_step] @ Gate gate # [Agent done_step]) False gate_start =
     execute_steps [Agent done_step] False (after_gate False)"
proof -
  have reg: "map_of test_engine ''gate_workflow'' =
     Some (workflow_of ''gate_workflow'' [Agent classify_step, Gate gate, Agent done_step])"
    by (simp add: fixture_defs register_def)
  have ss: "wf_steps (workflow_of ''gate_workflow'' [Agent classify_step, Gate gate, Agent done_step]) =
      [Agent classify_step] @ Gate gate # [Agent done_step]"
    by (simp add: workflow_of_def)
  have pre: "execute_steps [Agent classify_step] True gate_start = Some (Next, at_gate True)"
    "execute_steps [Agent classify_step] False gate_start = Some (Next, at_gate False)"
    by (simp_all add: engine_defs fixture_defs)
  have cond: "gate_should_run gate (rs_memory (at_gate True)) = Inr True"
    "gate_should_run gate (rs_memory (at_gate False)) = Inr True"
    by (simp_all add: gate_should_run_def gate_def gate_step_def)
  have g: "handle_human_gate gate True (at_gate True) = Some (Inr False, after_gate True)"
    "handle_human_gate gate False (at_gate False) = Some (Inr True, after_gate False)"
    by (simp_all add: engine_defs fixture_defs ask_loop.simps)
  have ev: "rs_memory (at_gate True) ''classification'' = Some classify_output"
    "map t_step_id (steps (rs_trace (at_gate True))) = [''classify'']"
    "map fst (exec_log (at_gate True)) = [''classify'']"
    by (simp_all add: engine_defs fixture_defs)
  from gate_rejection_cancels[OF reg ss, of True Map.empty 0 "console [''talvez'', ''nao'']"
      "at_gate True" False "after_gate True"] pre(1) cond(1) g(1)
  have a: "\<exists>res st. run test_engine ''gate_workflow'' Map.empty True 0 (console [''talvez'', ''nao'']) =
        Some (Inr (res, st)) \<and>
      res_status res = WF_CANCELLED \<and> status (res_trace res) = WF_CANCELLED \<and>
      res_memory res = rs_memory (at_gate True) \<and>
      steps (res_trace res) = steps (rs_trace (at_gate True)) \<and>
      exec_log st = exec_log (at_gate True)"
    by (simp add: gate_start_def)
  from gate_rejection_cancels[OF reg ss, of False Map.empty 0 "console [''talvez'', ''nao'']"
      "at_gate False" True "after_gate False"] pre(2) cond(2) g(2)
  have b: "execute_steps ([Agent classify_step] @ Gate gate # [Agent done_step]) False gate_start =
     execute_steps [Agent done_step] False (after_gate False)"
    by (simp add: gate_start_def)
  from reg pre cond(1) g ev a b show ?thesis by blast
qed

text \<open>
  C6. Take a run whose steps before a task step all went on to the next step, and whose
  task step runs and ends on a FAILED result. If the step is required, the run returns
  FAILED, with the message naming the step, and with the memory, the records and the
  executor calls as they stood after that step: no later step runs. If it is not
  required, the loop goes on with the steps after it. In both cases the engine has not
  written the step's memory key: if the executor leaves that key alone, its value is what
  it was before the step.
\<close>

theorem failed_step_escalation:
  assumes reg: "map_of eng nm = Some workflow"
    and ss: "wf_steps workflow = pre @ Agent a # post"
    and pre: "execute_steps pre i (init_state nm inp0 w inp) = Some (Next, st1)"
    and cond: "should_run a (rs_memory st1) = Inr True"
    and ex: "execute_agent_step a st1 = (Inr r, st2)"
    and fl: "failed r"
  shows "(if required a
          then \<exists>res st. run eng nm inp0 i w inp = Some (Inr (res, st)) \<and>
                 res_status res = WF_FAILED \<and> status (res_trace res) = WF_FAILED \<and>
                 error (res_trace res) = Some (required_failed_msg (step_id a) (r_error r)) \<and>
                 res_memory res = rs_memory st2 \<and>
                 steps (res_trace res) = steps (rs_trace st2) \<and>
                 exec_log st = exec_log st2
          else execute_steps (pre @ Agent a # post) i (init_state nm inp0 w inp) =
                 execute_steps post i st2) \<and>
         ((\<forall>m w c m' w'. execute (agent a) (step_id a) m w = (c, m', w') \<longrightarrow>
              m' (memory_key a) = m (memory_key a)) \<longrightarrow>
            rs_memory st2 (memory_key a) = rs_memory st1 (memory_key a))"
proof
  have step: "process_step (Agent a) i st1 =
      (if required a
       then Some (Return WF_FAILED,
                 st2 \<lparr> rs_trace := trace_complete (rs_trace st2) WF_FAILED
                         (Some (required_failed_msg (step_id a) (r_error r))) \<rparr>)
       else Some (Next, st2))"
    using cond ex fl by (simp add: process_step_agent)
  show "if required a
          then \<exists>res st. run eng nm inp0 i w inp = Some (Inr (res, st)) \<and>
                 res_status res = WF_FAILED \<and> status (res_trace res) = WF_FAILED \<and>
                 error (res_trace res) = Some (required_failed_msg (step_id a) (r_error r)) \<and>
                 res_memory res = rs_memory st2 \<and>
                 steps (res_trace res) = steps (rs_trace st2) \<and>
                 exec_log st = exec_log st2
          else execute_steps (pre @ Agent a # post) i (init_state nm inp0 w inp) =
                 execute_steps post i st2"
  proof (cases "required a")
    case True
    with step pre have "execute_steps (wf_steps workflow) i (init_state nm inp0 w inp) =
        Some (Return WF_FAILED,
              st2 \<lparr> rs_trace := trace_complete (rs_trace st2) WF_FAILED
                      (Some (required_failed_msg (step_id a) (r_error r))) \<rparr>)"
      by (simp add: ss execute_steps_append)
    then have "run eng nm inp0 i w inp =
        Some (Inr (make_result nm WF_FAILED
                     (st2 \<lparr> rs_trace := trace_complete (rs_trace st2) WF_FAILED
                      (Some (required_failed_msg (step_id a) (r_error r))) \<rparr>),
                   st2 \<lparr> rs_trace := trace_complete (rs_trace st2) WF_FAILED
                      (Some (required_failed_msg (step_id a) (r_error r))) \<rparr>))"
      using reg by (simp add: run_registered execute_workflow_def)
    with True show ?thesis
      by (simp add: make_result_def trace_complete_def)
  next
    case False
    with step pre show ?thesis by (simp add: execute_steps_append)
  qed
  show "(\<forall>m w c m' w'. execute (agent a) (step_id a) m w = (c, m', w') \<longrightarrow>
              m' (memory_key a) = m (memory_key a)) \<longrightarrow>
            rs_memory st2 (memory_key a) = rs_memory st1 (memory_key a)"
  proof
    assume keep: "\<forall>m w c m' w'. execute (agent a) (step_id a) m w = (c, m', w') \<longrightarrow>
              m' (memory_key a) = m (memory_key a)"
    from execute_agent_step_memory[OF keep ex] fl
    show "rs_memory st2 (memory_key a) = rs_memory st1 (memory_key a)"
      by (auto simp: failed_def succeeded_def)
  qed
qed

theorem failed_step_escalation_witness:
  "map_of test_engine ''fail_workflow'' =
     Some (workflow_of ''fail_workflow'' [Agent fail_step, Agent classify_step]) \<and>
   execute_steps [] False fail_start = Some (Next, fail_start) \<and>
   should_run fail_step (rs_memory fail_start) = Inr True \<and>
   execute_agent_step fail_step fail_start =
     (Inr ((fail_result ''fail_step'' ''Simulated failure'') \<lparr> r_retry_count := 1 \<rparr>),
      snd (execute_agent_step fail_step fail_start)) \<and>
   failed ((fail_result ''fail_step'' ''Simulated failure'') \<lparr> r_retry_count := 1 \<rparr>) \<and>
   required fail_step \<and>
   (\<exists>res st. run test_engine ''fail_workflow'' Map.empty False 0 (console []) = Some (Inr (res, st)) \<and>
      res_status res = WF_FAILED \<and> status (res_trace res) = WF_FAILED \<and>
      error (res_trace res) =
        Some (required_failed_msg (step_id fail_step) (Some ''Simulated failure'')) \<and>
      res_memory res = rs_memory (snd (execute_agent_step fail_step fail_start)) \<and>
      steps (res_trace res) = steps (rs_trace (snd (execute_agent_step fail_step fail_start))) \<and>
      exec_log st = exec_log (snd (execute_agent_step fail_step fail_start))) \<and>
   map t_step_id (steps (rs_trace (snd (execute_agent_step fail_step fail_start)))) = [''fail_step''] \<and>
   map t_retry_count (steps (rs_trace (snd (execute_agent_step fail_step fail_start)))) = [1] \<and>
   map fst (exec_log (snd (execute_agent_step fail_step fail_start))) = [''fail_step'', ''fail_step''] \<and>
   rs_memory (snd (execute_agent_step fail_step fail_start)) (memory_key fail_step) =
     rs_memory fail_start (memory_key fail_step) \<and>
   rs_memory fail_start (memory_key fail_step) = None \<and>
   map_of test_engine ''optional_fail_workflow'' =
     Some (workflow_of ''optional_fail_workflow'' [Agent opt_step, Agent classify_step]) \<and>
   execute_agent_step opt_step opt_start =
     (Inr (fail_result ''opt_step'' ''Optional failure''), snd (execute_agent_step opt_step opt_start)) \<and>
   \<not> required opt_step \<and>
   execute_steps ([] @ Agent opt_step # [Agent classify_step]) False opt_start =
     execute_steps [Agent classify_step] False (snd (execute_agent_step opt_step opt_start)) \<and>
   rs_memory (snd (execute_agent_step opt_step opt_start)) (memory_key opt_step) = None \<and>
   map_option res_status (result_of (run test_engine ''optional_fail_workflow'' Map.empty False 0
      (console []))) = Some WF_COMPLETED"
proof -
  have reg: "map_of test_engine ''fail_workflow'' =
     Some (workflow_of ''fail_workflow'' [Agent fail_step, Agent classify_step])"
    "map_of test_engine ''optional_fail_workflow'' =
     Some (workflow_of ''optional_fail_workflow'' [Agent opt_step, Agent classify_step])"
    by (simp_all add: fixture_defs register_def)
  have ss: "wf_steps (workflow_of ''fail_workflow'' [Agent fail_step, Agent classify_step]) =
      [] @ Agent fail_step # [Agent classify_step]"
    "wf_steps (workflow_of ''optional_fail_workflow'' [Agent opt_step, Agent classify_step]) =
      [] @ Agent opt_step # [Agent classify_step]"
    by (simp_all add: workflow_of_def)
  have pre: "execute_steps [] False (init_state ''fail_workflow'' Map.empty 0 (console [])) =
      Some (Next, fail_start)"
    "execute_steps [] False (init_state ''optional_fail_workflow'' Map.empty 0 (console [])) =
      Some (Next, opt_start)"
    by (simp_all add: fail_start_def opt_start_def)
  have cond: "should_run fail_step (rs_memory fail_start) = Inr True"
    "should_run opt_step (rs_memory opt_start) = Inr True"
    by (simp_all add: should_run_def fixture_defs)
  have ex: "execute_agent_step fail_step fail_start =
     (Inr ((fail_result ''fail_step'' ''Simulated failure'') \<lparr> r_retry_count := 1 \<rparr>),
      snd (execute_agent_step fail_step fail_start))"
    "execute_agent_step opt_step opt_start =
     (Inr (fail_result ''opt_step'' ''Optional failure''), snd (execute_agent_step opt_step opt_start))"
    by (simp_all add: engine_defs fixture_defs upt_conv_Cons)
  have fl: "failed ((fail_result ''fail_step'' ''Simulated failure'') \<lparr> r_retry_count := 1 \<rparr>)"
    "failed (fail_result ''opt_step'' ''Optional failure'')"
    by (simp_all add: failed_def fail_result_def)
  have rq: "required fail_step" "\<not> required opt_step"
    by (simp_all add: fixture_defs)
  have keep: "\<forall>m w c m' w'. execute (agent fail_step) (step_id fail_step) m w = (c, m', w') \<longrightarrow>
              m' (memory_key fail_step) = m (memory_key fail_step)"
    "\<forall>m w c m' w'. execute (agent opt_step) (step_id opt_step) m w = (c, m', w') \<longrightarrow>
              m' (memory_key opt_step) = m (memory_key opt_step)"
    by (simp_all add: fixture_defs)
  have ev: "map t_step_id (steps (rs_trace (snd (execute_agent_step fail_step fail_start)))) = [''fail_step'']"
    "map t_retry_count (steps (rs_trace (snd (execute_agent_step fail_step fail_start)))) = [1]"
    "map fst (exec_log (snd (execute_agent_step fail_step fail_start))) = [''fail_step'', ''fail_step'']"
    "rs_memory fail_start (memory_key fail_step) = None"
    "rs_memory opt_start (memory_key opt_step) = None"
    "map_option res_status (result_of (run test_engine ''optional_fail_workflow'' Map.empty False 0
      (console []))) = Some WF_COMPLETED"
    by (simp_all add: engine_defs fixture_defs upt_conv_Cons)
  note t1 = failed_step_escalation[OF reg(1) ss(1) pre(1) cond(1) ex(1) fl(1)]
  note t2 = failed_step_escalation[OF reg(2) ss(2) pre(2) cond(2) ex(2) fl(2)]
  from t1 rq(1) have a: "\<exists>res st. run test_engine ''fail_workflow'' Map.empty False 0 (console []) = Some (Inr (res, st)) \<and>
      res_status res = WF_FAILED \<and> status (res_trace res) = WF_FAILED \<and>
      error (res_trace res) =
        Some (required_failed_msg (step_id fail_step) (Some ''Simulated failure'')) \<and>
      res_memory res = rs_memory (snd (execute_agent_step fail_step fail_start)) \<and>
      steps (res_trace res) = steps (rs_trace (snd (execute_agent_step fail_step fail_start))) \<and>
      exec_log st = exec_log (snd (execute_agent_step fail_step fail_start))"
    by (simp add: fail_result_def)
  from t1 keep(1) have b: "rs_memory (snd (execute_agent_step fail_step fail_start)) (memory_key fail_step) =
     rs_memory fail_start (memory_key fail_step)" by blast
  from t2 rq(2) have c: "execute_steps ([] @ Agent opt_step # [Agent classify_step]) False opt_start =
     execute_steps [Agent classify_step] False (snd (execute_agent_step opt_step opt_start))"
    by (simp add: opt_start_def)
  from t2 keep(2) ev(5) have d: "rs_memory (snd (execute_agent_step opt_step opt_start)) (memory_key opt_step) = None"
    by simp
  have p0: "execute_steps [] False fail_start = Some (Next, fail_start)" by simp
  from reg p0 cond(1) ex fl(1) rq a ev(1-4) b c d ev(6) show ?thesis by blast
qed

text \<open>
  C8. A gate whose condition is false is skipped and changes neither counter. A gate that
  runs adds one to the gates encountered, and adds one to the gates approved exactly when
  it is approved (the loop goes on), not when it is rejected (the run is cancelled) nor
  when the dialog raises; without interaction, or without \<open>require_approval\<close>, it is
  approved. Task steps change neither counter.
\<close>

theorem gate_counters:
  "(gate_should_run g (rs_memory st) = Inr False \<longrightarrow>
      (\<exists>st'. process_step (Gate g) i st = Some (Next, st') \<and>
         human_gates_encountered (rs_trace st') = human_gates_encountered (rs_trace st) \<and>
         human_gates_approved (rs_trace st') = human_gates_approved (rs_trace st))) \<and>
   (gate_should_run g (rs_memory st) = Inr True \<and> process_step (Gate g) i st = Some (fl, st') \<longrightarrow>
      human_gates_encountered (rs_trace st') = human_gates_encountered (rs_trace st) + 1 \<and>
      human_gates_approved (rs_trace st') =
        human_gates_approved (rs_trace st) + (if fl = Next then 1 else 0) \<and>
      (fl = Next \<longleftrightarrow> (\<exists>st2. handle_human_gate g i st = Some (Inr True, st2))) \<and>
      (fl = Return WF_CANCELLED \<longleftrightarrow> (\<exists>st2. handle_human_gate g i st = Some (Inr False, st2)))) \<and>
   (gate_should_run g (rs_memory st) = Inr True \<and> (\<not> i \<or> \<not> require_approval g) \<longrightarrow>
      (\<exists>st'. process_step (Gate g) i st = Some (Next, st'))) \<and>
   (process_step (Agent a) i st = Some (fl', st'') \<longrightarrow>
      human_gates_encountered (rs_trace st'') = human_gates_encountered (rs_trace st) \<and>
      human_gates_approved (rs_trace st'') = human_gates_approved (rs_trace st))"
proof (intro conjI impI)
  assume "gate_should_run g (rs_memory st) = Inr False"
  then show "\<exists>st'. process_step (Gate g) i st = Some (Next, st') \<and>
         human_gates_encountered (rs_trace st') = human_gates_encountered (rs_trace st) \<and>
         human_gates_approved (rs_trace st') = human_gates_approved (rs_trace st)"
    by (simp add: process_step_skip step_should_run_def record_skipped_def add_step_def)
next
  assume a: "gate_should_run g (rs_memory st) = Inr True \<and> process_step (Gate g) i st = Some (fl, st')"
  then obtain out st2 where h: "handle_human_gate g i st = Some (out, st2)"
    by (auto simp: process_step_gate split: option.splits)
  note keep = handle_human_gate_keeps(5,6)[OF h]
  from a h have r: "(fl, st') = (case out of Inl e \<Rightarrow> (Raise e, st2)
      | Inr approved \<Rightarrow> if \<not> approved
          then (Return WF_CANCELLED, st2 \<lparr> rs_trace := trace_complete (rs_trace st2) WF_CANCELLED None \<rparr>)
          else (Next, st2))"
    by (auto simp: process_step_gate split: sum.splits if_splits)
  from r keep show "human_gates_encountered (rs_trace st') = human_gates_encountered (rs_trace st) + 1"
    by (auto simp: trace_complete_def split: sum.splits if_splits)
  from r keep show "human_gates_approved (rs_trace st') =
        human_gates_approved (rs_trace st) + (if fl = Next then 1 else 0)"
    by (auto simp: trace_complete_def split: sum.splits if_splits)
  from r h show "fl = Next \<longleftrightarrow> (\<exists>st2. handle_human_gate g i st = Some (Inr True, st2))"
    by (auto split: sum.splits if_splits)
  from r h show "fl = Return WF_CANCELLED \<longleftrightarrow> (\<exists>st2. handle_human_gate g i st = Some (Inr False, st2))"
    by (auto split: sum.splits if_splits)
next
  assume "gate_should_run g (rs_memory st) = Inr True \<and> (\<not> i \<or> \<not> require_approval g)"
  then show "\<exists>st'. process_step (Gate g) i st = Some (Next, st')"
    by (auto simp: process_step_gate handle_human_gate_def Let_def)
next
  assume a: "process_step (Agent a) i st = Some (fl', st'')"
  show "human_gates_encountered (rs_trace st'') = human_gates_encountered (rs_trace st)"
    "human_gates_approved (rs_trace st'') = human_gates_approved (rs_trace st)"
  proof -
    have "human_gates_encountered (rs_trace st'') = human_gates_encountered (rs_trace st) \<and>
          human_gates_approved (rs_trace st'') = human_gates_approved (rs_trace st)"
    proof (cases rule: should_run_cases[of "Agent a" "rs_memory st"])
      case (raises x)
      with a show ?thesis by (simp add: process_step_raise)
    next
      case skips
      with a show ?thesis
        by (auto simp: process_step_skip record_skipped_def add_step_def)
    next
      case runs
      then have True: "should_run a (rs_memory st) = Inr True" by (simp add: step_should_run_def)
      obtain out st1 where e: "execute_agent_step a st = (out, st1)"
        by (cases "execute_agent_step a st") auto
      from execute_agent_step_effect[OF e] have
        "human_gates_encountered (rs_trace st1) = human_gates_encountered (rs_trace st) \<and>
         human_gates_approved (rs_trace st1) = human_gates_approved (rs_trace st)"
        by (cases out) (auto simp: add_step_def)
      with a True e show ?thesis
        by (auto simp: process_step_agent trace_complete_def split: sum.splits if_splits)
    qed
    then show "human_gates_encountered (rs_trace st'') = human_gates_encountered (rs_trace st)"
      "human_gates_approved (rs_trace st'') = human_gates_approved (rs_trace st)" by simp_all
  qed
qed

theorem gate_counters_witness:
  "gate_should_run cond_gate (rs_memory gate_start) = Inr False \<and>
   (\<exists>st'. process_step (Gate cond_gate) True gate_start = Some (Next, st') \<and>
      human_gates_encountered (rs_trace st') = human_gates_encountered (rs_trace gate_start) \<and>
      human_gates_approved (rs_trace st') = human_gates_approved (rs_trace gate_start)) \<and>
   gate_should_run gate (rs_memory gate_start) = Inr True \<and>
   process_step (Gate gate) True gate_start =
     Some (Return WF_CANCELLED, snd (the (process_step (Gate gate) True gate_start))) \<and>
   human_gates_encountered (rs_trace (snd (the (process_step (Gate gate) True gate_start)))) = 1 \<and>
   human_gates_approved (rs_trace (snd (the (process_step (Gate gate) True gate_start)))) = 0 \<and>
   process_step (Gate gate) True (gate_start \<lparr> stdin := console [''sim''] \<rparr>) =
     Some (Next, snd (the (process_step (Gate gate) True (gate_start \<lparr> stdin := console [''sim''] \<rparr>)))) \<and>
   human_gates_encountered (rs_trace (snd (the (process_step (Gate gate) True
      (gate_start \<lparr> stdin := console [''sim''] \<rparr>))))) = 1 \<and>
   human_gates_approved (rs_trace (snd (the (process_step (Gate gate) True
      (gate_start \<lparr> stdin := console [''sim''] \<rparr>))))) = 1 \<and>
   (\<exists>st'. process_step (Gate gate) False gate_start = Some (Next, st')) \<and>
   process_step (Agent classify_step) True gate_start =
     Some (Next, snd (the (process_step (Agent classify_step) True gate_start))) \<and>
   human_gates_encountered (rs_trace (snd (the (process_step (Agent classify_step) True gate_start)))) = 0 \<and>
   human_gates_approved (rs_trace (snd (the (process_step (Agent classify_step) True gate_start)))) = 0"
proof -
  have c1: "gate_should_run cond_gate (rs_memory gate_start) = Inr False"
    by (simp add: engine_defs fixture_defs)
  have c2: "gate_should_run gate (rs_memory gate_start) = Inr True"
    "gate_should_run gate (rs_memory (gate_start \<lparr> stdin := console [''sim''] \<rparr>)) = Inr True"
    by (simp_all add: engine_defs fixture_defs)
  have p: "process_step (Gate gate) True gate_start =
     Some (Return WF_CANCELLED, snd (the (process_step (Gate gate) True gate_start)))"
    "process_step (Gate gate) True (gate_start \<lparr> stdin := console [''sim''] \<rparr>) =
     Some (Next, snd (the (process_step (Gate gate) True (gate_start \<lparr> stdin := console [''sim''] \<rparr>))))"
    "process_step (Agent classify_step) True gate_start =
     Some (Next, snd (the (process_step (Agent classify_step) True gate_start)))"
    by (simp_all add: engine_defs fixture_defs ask_loop.simps)
  have z: "human_gates_encountered (rs_trace gate_start) = 0"
    "human_gates_approved (rs_trace gate_start) = 0"
    "human_gates_encountered (rs_trace (gate_start \<lparr> stdin := console [''sim''] \<rparr>)) = 0"
    "human_gates_approved (rs_trace (gate_start \<lparr> stdin := console [''sim''] \<rparr>)) = 0"
    by (simp_all add: engine_defs fixture_defs)
  note t1 = gate_counters[of cond_gate gate_start True Next gate_start classify_step Next gate_start]
  note t2 = gate_counters[of gate gate_start True "Return WF_CANCELLED"
      "snd (the (process_step (Gate gate) True gate_start))" classify_step Next
      "snd (the (process_step (Agent classify_step) True gate_start))"]
  note t3 = gate_counters[of gate "gate_start \<lparr> stdin := console [''sim''] \<rparr>" True Next
      "snd (the (process_step (Gate gate) True (gate_start \<lparr> stdin := console [''sim''] \<rparr>)))"
      classify_step Next gate_start]
  note t4 = gate_counters[of gate gate_start False Next gate_start classify_step Next gate_start]
  from t1 c1 have a: "\<exists>st'. process_step (Gate cond_gate) True gate_start = Some (Next, st') \<and>
      human_gates_encountered (rs_trace st') = human_gates_encountered (rs_trace gate_start) \<and>
      human_gates_approved (rs_trace st') = human_gates_approved (rs_trace gate_start)"
    by blast
  from t2 c2(1) p(1) z(1,2) have b:
    "human_gates_encountered (rs_trace (snd (the (process_step (Gate gate) True gate_start)))) = 1"
    "human_gates_approved (rs_trace (snd (the (process_step (Gate gate) True gate_start)))) = 0"
    by simp_all
  from t2 p(3) z(1,2) have e:
    "human_gates_encountered (rs_trace (snd (the (process_step (Agent classify_step) True gate_start)))) = 0"
    "human_gates_approved (rs_trace (snd (the (process_step (Agent classify_step) True gate_start)))) = 0"
    by simp_all
  from t3 c2(2) p(2) z(3,4) have c:
    "human_gates_encountered (rs_trace (snd (the (process_step (Gate gate) True
      (gate_start \<lparr> stdin := console [''sim''] \<rparr>))))) = 1"
    "human_gates_approved (rs_trace (snd (the (process_step (Gate gate) True
      (gate_start \<lparr> stdin := console [''sim''] \<rparr>))))) = 1"
    by simp_all
  from t4 c2(1) have d: "\<exists>st'. process_step (Gate gate) False gate_start = Some (Next, st')"
    by blast
  from c1 a c2(1) p b c d e show ?thesis by blast
qed

section \<open>The records of the trace\<close>

text \<open>What each pass through the loop body adds to \<open>steps\<close>.\<close>

lemma process_step_records:
  assumes "process_step s i st = Some (fl, st')"
  shows "case step_should_run s (rs_memory st) of
           Inl e \<Rightarrow> fl = Raise e \<and> st' = st
         | Inr runs \<Rightarrow>
         if \<not> runs
         then fl = Next \<and> st' = record_skipped (id_of s) st
         else (case s of
                 Gate g \<Rightarrow> steps (rs_trace st') = steps (rs_trace st)
               | Agent a \<Rightarrow>
                   (case execute_agent_step a st of
                      (Inl e, st2) \<Rightarrow> fl = Raise e \<and> steps (rs_trace st') = steps (rs_trace st)
                    | (Inr r, st2) \<Rightarrow>
                        steps (rs_trace st') =
                          steps (rs_trace st) @ [step_trace_of a (rs_memory st) r]))"
proof (cases rule: should_run_cases[of s "rs_memory st"])
  case (raises e)
  with assms show ?thesis by (simp add: process_step_raise)
next
  case skips
  with assms show ?thesis by (simp add: process_step_skip)
next
  case True: runs
  show ?thesis
  proof (cases s)
    case (Gate g)
    with assms True obtain out st2 where h: "handle_human_gate g i st = Some (out, st2)"
      and "steps (rs_trace st') = steps (rs_trace st2)"
      by (auto simp: process_step_gate step_should_run_def trace_complete_def
               split: option.splits sum.splits if_splits)
    with handle_human_gate_keeps(2)[OF h] True Gate show ?thesis by simp
  next
    case (Agent a)
    obtain out st2 where e: "execute_agent_step a st = (out, st2)"
      by (cases "execute_agent_step a st") auto
    from execute_agent_step_effect[OF e] have
      tr: "case out of Inl e \<Rightarrow> rs_trace st2 = rs_trace st
           | Inr r \<Rightarrow> rs_trace st2 = add_step (rs_trace st) (step_trace_of a (rs_memory st) r)"
      by (cases out) auto
    with assms True Agent e show ?thesis
      by (cases out)
         (auto simp: process_step_agent step_should_run_def trace_complete_def add_step_def
               split: if_splits)
  qed
qed

text \<open>
  C2, as the code has it. A step whose \<open>should_run\<close> is false adds exactly one SKIPPED
  record with zero-valued cost fields, and leaves the memory and the totals alone (and a
  step whose \<open>should_run\<close> raises adds none). A task
  step that runs adds exactly one record when its last attempt returned a result, and
  none when its execution raised. A gate step that runs adds no record: gates are
  counted by the two gate counters, not in \<open>steps\<close>.
\<close>

theorem trace_records_per_step:
  assumes "process_step s i st = Some (fl, st')"
  shows "case step_should_run s (rs_memory st) of
           Inl e \<Rightarrow> fl = Raise e \<and> steps (rs_trace st') = steps (rs_trace st)
         | Inr runs \<Rightarrow>
         if \<not> runs
         then fl = Next \<and> rs_memory st' = rs_memory st \<and>
              steps (rs_trace st') = steps (rs_trace st) @ [skipped_trace (id_of s)] \<and>
              t_status (skipped_trace (id_of s)) = SKIPPED \<and>
              t_llm_calls (skipped_trace (id_of s)) = 0 \<and>
              t_tokens_used (skipped_trace (id_of s)) = 0 \<and>
              t_duration_ms (skipped_trace (id_of s)) = 0 \<and>
              total_llm_calls (rs_trace st') = total_llm_calls (rs_trace st) \<and>
              total_tokens_used (rs_trace st') = total_tokens_used (rs_trace st) \<and>
              total_duration_ms (rs_trace st') = total_duration_ms (rs_trace st)
         else (case s of
                 Gate g \<Rightarrow> steps (rs_trace st') = steps (rs_trace st)
               | Agent a \<Rightarrow>
                   (case execute_agent_step a st of
                      (Inl e, st2) \<Rightarrow> fl = Raise e \<and> steps (rs_trace st') = steps (rs_trace st)
                    | (Inr r, st2) \<Rightarrow>
                        steps (rs_trace st') =
                          steps (rs_trace st) @ [step_trace_of a (rs_memory st) r]))"
proof (cases rule: should_run_cases[of s "rs_memory st"])
  case (raises e)
  with process_step_records[OF assms] show ?thesis by simp
next
  case skips
  with process_step_records[OF assms] show ?thesis
    by (simp add: record_skipped_def add_step_def skipped_trace_def)
next
  case runs
  with process_step_records[OF assms] show ?thesis
    by (auto split: step.splits prod.splits sum.splits)
qed

text \<open>The claim as stated fails on a gate: the gate of the one-gate workflow runs, and the
  trace of the run has no record.\<close>

theorem gate_record_counterexample:
  "step_should_run (Gate gate :: nat step) (rs_memory gate_start) = Inr True \<and>
   process_step (Gate gate) False gate_start =
     Some (Next, snd (the (process_step (Gate gate) False gate_start))) \<and>
   steps (rs_trace (snd (the (process_step (Gate gate) False gate_start)))) = [] \<and>
   map_option (length \<circ> steps \<circ> res_trace)
     (result_of (run test_engine ''gate_only_workflow'' Map.empty False 0 (console []))) = Some 0"
  by (simp add: engine_defs fixture_defs)


theorem trace_records_per_step_witness:
  "process_step (Gate cond_gate) True gate_start =
     Some (Next, snd (the (process_step (Gate cond_gate) True gate_start))) \<and>
   step_should_run (Gate cond_gate :: nat step) (rs_memory gate_start) = Inr False \<and>
   steps (rs_trace (snd (the (process_step (Gate cond_gate) True gate_start)))) =
     steps (rs_trace gate_start) @ [skipped_trace ''gate''] \<and>
   t_status (skipped_trace ''gate'') = SKIPPED \<and>
   t_llm_calls (skipped_trace ''gate'') = 0 \<and> t_tokens_used (skipped_trace ''gate'') = 0 \<and>
   t_duration_ms (skipped_trace ''gate'') = 0 \<and>
   process_step (Agent classify_step) True gate_start = Some (Next, at_gate True) \<and>
   step_should_run (Agent classify_step) (rs_memory gate_start) = Inr True \<and>
   steps (rs_trace (at_gate True)) =
     steps (rs_trace gate_start) @
       [step_trace_of classify_step (rs_memory gate_start)
          (mock_result ''ClassifierAgent'' classify_output (9 / 10) ''classify'')] \<and>
   process_step (Gate gate) False (at_gate True) =
     Some (Next, snd (the (process_step (Gate gate) False (at_gate True)))) \<and>
   step_should_run (Gate gate :: nat step) (rs_memory (at_gate True)) = Inr True \<and>
   steps (rs_trace (snd (the (process_step (Gate gate) False (at_gate True))))) =
     steps (rs_trace (at_gate True))"
proof -
  have p: "process_step (Gate cond_gate) True gate_start =
     Some (Next, snd (the (process_step (Gate cond_gate) True gate_start)))"
    "process_step (Agent classify_step) True gate_start = Some (Next, at_gate True)"
    "process_step (Gate gate) False (at_gate True) =
     Some (Next, snd (the (process_step (Gate gate) False (at_gate True))))"
    by (simp_all add: engine_defs fixture_defs)
  have c: "step_should_run (Gate cond_gate :: nat step) (rs_memory gate_start) = Inr False"
    "step_should_run (Agent classify_step) (rs_memory gate_start) = Inr True"
    "step_should_run (Gate gate :: nat step) (rs_memory (at_gate True)) = Inr True"
    by (simp_all add: engine_defs fixture_defs)
  have i: "id_of (Gate cond_gate :: nat step) = ''gate''"
    by (simp add: id_of_def fixture_defs)
  obtain st2 where e: "execute_agent_step classify_step gate_start =
      (Inr (mock_result ''ClassifierAgent'' classify_output (9 / 10) ''classify''), st2)"
    by (simp add: engine_defs fixture_defs)
  from trace_records_per_step[OF p(1)] c(1) i have a:
    "steps (rs_trace (snd (the (process_step (Gate cond_gate) True gate_start)))) =
       steps (rs_trace gate_start) @ [skipped_trace ''gate'']"
    "t_status (skipped_trace ''gate'') = SKIPPED"
    "t_llm_calls (skipped_trace ''gate'') = 0" "t_tokens_used (skipped_trace ''gate'') = 0"
    "t_duration_ms (skipped_trace ''gate'') = 0"
    by simp_all
  from trace_records_per_step[OF p(2)] c(2) e have b:
    "steps (rs_trace (at_gate True)) =
     steps (rs_trace gate_start) @
       [step_trace_of classify_step (rs_memory gate_start)
          (mock_result ''ClassifierAgent'' classify_output (9 / 10) ''classify'')]"
    by simp
  from trace_records_per_step[OF p(3)] c(3) have d:
    "steps (rs_trace (snd (the (process_step (Gate gate) False (at_gate True))))) =
     steps (rs_trace (at_gate True))"
    by simp
  from p c a b d show ?thesis by blast
qed

section \<open>The confidence of the records\<close>

lemma unrecorded_calls_append:
  "unrecorded_calls ts calls = Some [] \<Longrightarrow>
   unrecorded_calls (ts @ ts') (calls @ calls') = unrecorded_calls ts' calls'"
proof (induction ts arbitrary: calls)
  case Nil
  then show ?case by simp
next
  case (Cons t ts)
  show ?case
  proof (cases "t = skipped_trace (t_step_id t)")
    case True
    with Cons show ?thesis by simp
  next
    case False
    with Cons.prems have tc: "terminal_call t calls"
      and r: "unrecorded_calls ts (drop (Suc (nat (t_retry_count t))) calls) = Some []"
      by (auto split: if_splits)
    from tc have n: "nat (t_retry_count t) < length calls"
      by (simp add: terminal_call_def Let_def)
    with tc have "terminal_call t (calls @ calls')"
      by (simp add: terminal_call_def Let_def nth_append)
    with False n Cons.IH[OF r] show ?thesis by simp
  qed
qed

lemma step_trace_not_skipped:
  "step_trace_of a m r \<noteq> skipped_trace sid"
  by (simp add: step_trace_of_def skipped_trace_def)

lemma terminal_call_block:
  assumes ne: "calls \<noteq> []" and l: "last calls = Inr r0"
    and nc: "list_all not_completed (butlast calls)"
    and r: "r = r0 \<lparr> r_retry_count := int (length calls) - 1 \<rparr>"
  shows "unrecorded_calls [step_trace_of a m r] (map (Pair (step_id a)) calls) = Some []"
proof -
  let ?t = "step_trace_of a m r"
  let ?n = "nat (t_retry_count ?t)"
  from ne have len: "0 < length calls" by simp
  have rc: "t_retry_count ?t = int (length calls) - 1" using r by (simp add: step_trace_of_def)
  with len have n: "?n = length calls - 1" by simp
  with len have sn: "Suc ?n = length calls" by simp
  have nth: "calls ! (length calls - 1) = Inr r0" using ne l by (simp add: last_conv_nth)
  have tk: "take (length calls - 1) calls = butlast calls" by (simp add: butlast_conv_take)
  have "terminal_call ?t (map (Pair (step_id a)) calls)"
    unfolding terminal_call_def Let_def
  proof (intro conjI)
    show "0 \<le> t_retry_count ?t" using rc len by simp
    show "?n < length (map (Pair (step_id a)) calls)" using n len by simp
    show "list_all (\<lambda>c. fst c = t_step_id ?t) (take (Suc ?n) (map (Pair (step_id a)) calls))"
      by (simp add: list_all_iff step_trace_of_def take_map)
    show "list_all (\<lambda>c. not_completed (snd c)) (take ?n (map (Pair (step_id a)) calls))"
      using nc unfolding n by (simp add: take_map list_all_iff butlast_conv_take)
    show "case snd (map (Pair (step_id a)) calls ! ?n) of
            Inl e \<Rightarrow> False
          | Inr r \<Rightarrow> t_status ?t = r_status r \<and> t_confidence ?t = r_confidence r"
      unfolding n using len nth r by (simp add: step_trace_of_def)
  qed
  moreover have "drop (Suc ?n) (map (Pair (step_id a)) calls) = []" using sn by simp
  ultimately show ?thesis by (simp add: step_trace_not_skipped)
qed

lemma unrecorded_calls_skipped:
  assumes "unrecorded_calls ts calls = Some []"
  shows "unrecorded_calls (ts @ [skipped_trace sid]) calls = Some []"
  using unrecorded_calls_append[OF assms, of "[skipped_trace sid]" "[]"]
  by (simp add: skipped_trace_def)

lemma process_step_accounts:
  assumes inv: "unrecorded_calls (steps (rs_trace st)) (exec_log st) = Some []"
    and p: "process_step s i st = Some (fl, st')"
  shows "\<exists>rest. unrecorded_calls (steps (rs_trace st')) (exec_log st') = Some rest \<and>
           (rest = [] \<or> (\<exists>e. fl = Raise e \<and> snd (last rest) = Inl e))"
proof (cases rule: should_run_cases[of s "rs_memory st"])
  case (raises e)
  with p inv show ?thesis by (simp add: process_step_raise)
next
  case skips
  with p have "st' = record_skipped (id_of s) st" by (simp add: process_step_skip)
  with unrecorded_calls_skipped[OF inv] show ?thesis
    by (simp add: record_skipped_def add_step_def)
next
  case True: runs
  show ?thesis
  proof (cases s)
    case (Gate g)
    with p True obtain out st2 where h: "handle_human_gate g i st = Some (out, st2)"
      and "steps (rs_trace st') = steps (rs_trace st2)" and "exec_log st' = exec_log st2"
      by (auto simp: process_step_gate step_should_run_def trace_complete_def
               split: option.splits sum.splits if_splits)
    with handle_human_gate_keeps(2,3)[OF h] inv show ?thesis by simp
  next
    case (Agent a)
    obtain out st2 where e: "execute_agent_step a st = (out, st2)"
      by (cases "execute_agent_step a st") auto
    from execute_agent_step_effect[OF e] obtain calls where
      log: "exec_log st2 = exec_log st @ map (Pair (step_id a)) calls"
      and nc: "list_all not_completed (butlast calls)"
      and res: "(case out of
        Inl e \<Rightarrow> rs_trace st2 = rs_trace st \<and>
          (if calls = [] then e = Exception attribute_error \<and> max_retries a \<le> 0 \<and> st2 = st
           else last calls = Inl e)
      | Inr r \<Rightarrow> calls \<noteq> [] \<and>
          (\<exists>r0. last calls = Inr r0 \<and> r = r0 \<lparr> r_retry_count := int (length calls) - 1 \<rparr> \<and>
             rs_trace st2 = add_step (rs_trace st) (step_trace_of a (rs_memory st) r) \<and>
             (if succeeded r0 then rs_memory st2 (memory_key a) = Some (r_output r0)
              else int (length calls) = max_retries a)))"
      by blast
    from True Agent have sr: "should_run a (rs_memory st) = Inr True"
      by (simp add: step_should_run_def)
    show ?thesis
    proof (cases out)
      case (Inl err)
      with p Agent e sr have fl: "fl = Raise err" and st': "st' = st2"
        by (simp_all add: process_step_agent)
      from res Inl have tr: "rs_trace st2 = rs_trace st" by simp
      show ?thesis
      proof (cases "calls = []")
        case True
        with log tr st' inv show ?thesis by simp
      next
        case False
        with res Inl have l: "last calls = Inl err" by simp
        from unrecorded_calls_append[OF inv, of "[]" "map (Pair (step_id a)) calls"] log tr st'
        have "unrecorded_calls (steps (rs_trace st')) (exec_log st') =
                Some (map (Pair (step_id a)) calls)" by simp
        moreover from False l have "snd (last (map (Pair (step_id a)) calls)) = Inl err"
          by (simp add: last_map)
        ultimately show ?thesis using fl by blast
      qed
    next
      case (Inr r)
      with res obtain r0 where ne: "calls \<noteq> []" and l: "last calls = Inr r0"
        and r: "r = r0 \<lparr> r_retry_count := int (length calls) - 1 \<rparr>"
        and tr: "rs_trace st2 = add_step (rs_trace st) (step_trace_of a (rs_memory st) r)"
        by auto
      from p Agent e sr Inr have "steps (rs_trace st') = steps (rs_trace st2)"
        and "exec_log st' = exec_log st2"
        by (auto simp: process_step_agent trace_complete_def split: if_splits)
      with log tr have "steps (rs_trace st') = steps (rs_trace st) @ [step_trace_of a (rs_memory st) r]"
        and "exec_log st' = exec_log st @ map (Pair (step_id a)) calls"
        by (simp_all add: add_step_def)
      then have "unrecorded_calls (steps (rs_trace st')) (exec_log st') =
                   unrecorded_calls [step_trace_of a (rs_memory st) r] (map (Pair (step_id a)) calls)"
        using unrecorded_calls_append[OF inv] by (simp only:)
      also have "\<dots> = Some []" by (rule terminal_call_block[OF ne l nc r])
      finally show ?thesis by blast
    qed
  qed
qed

lemma execute_steps_accounts:
  assumes "unrecorded_calls (steps (rs_trace st)) (exec_log st) = Some []"
    and "execute_steps ss i st = Some (fl, st')"
  shows "\<exists>rest. unrecorded_calls (steps (rs_trace st')) (exec_log st') = Some rest \<and>
           (rest = [] \<or> (\<exists>e. fl = Raise e \<and> snd (last rest) = Inl e))"
  using assms
proof (induction ss arbitrary: st)
  case Nil
  then show ?case by simp
next
  case (Cons s ss)
  from Cons.prems(2) obtain fl1 st1 where p: "process_step s i st = Some (fl1, st1)"
    by (auto split: option.splits)
  note a = process_step_accounts[OF Cons.prems(1) p]
  show ?case
  proof (cases fl1)
    case Next
    with a have inv1: "unrecorded_calls (steps (rs_trace st1)) (exec_log st1) = Some []" by auto
    from Next Cons.prems(2) p have "execute_steps ss i st1 = Some (fl, st')" by simp
    from Cons.IH[OF inv1 this] show ?thesis .
  next
    case (Return ws)
    with Cons.prems(2) p a show ?thesis by simp
  next
    case (Raise e)
    with Cons.prems(2) p a show ?thesis by simp
  qed
qed

lemma execute_workflow_accounts:
  assumes "execute_workflow workflow i (init_state nm inp0 w inp) = Some (out, st')"
  shows "\<exists>rest. unrecorded_calls (steps (rs_trace st')) (exec_log st') = Some rest \<and>
           (rest = [] \<or> (\<exists>e. out = Inl e \<and> snd (last rest) = Inl e))"
proof -
  have init: "unrecorded_calls (steps (rs_trace (init_state nm inp0 w inp)))
                (exec_log (init_state nm inp0 w inp)) = Some []"
    by (simp add: init_state_def new_trace_def)
  from assms obtain fl st1 where
    es: "execute_steps (wf_steps workflow) i (init_state nm inp0 w inp) = Some (fl, st1)"
    and eq: "steps (rs_trace st') = steps (rs_trace st1)" "exec_log st' = exec_log st1"
    and fl: "\<And>e. fl = Raise e \<Longrightarrow> out = Inl e"
    by (auto simp: execute_workflow_def trace_complete_def split: option.splits flow.splits)
  from execute_steps_accounts[OF init es] eq fl show ?thesis by auto
qed

lemma run_accounts:
  assumes "run eng nm inp0 i w inp = Some (Inr (res, st))"
  shows "\<exists>rest. unrecorded_calls (steps (res_trace res)) (exec_log st) = Some rest \<and>
           (rest = [] \<or>
            (\<exists>e. error (res_trace res) = Some e \<and> snd (last rest) = Inl (Exception e)))"
  using assms
proof (cases rule: run_result_cases)
  case (1 workflow ws)
  with execute_workflow_accounts[OF 1(2)] show ?thesis by (auto simp: make_result_def)
next
  case (2 workflow e st1)
  with execute_workflow_accounts[OF 2(2)] show ?thesis
    by (auto simp: make_result_def trace_complete_def)
qed

lemma process_step_confidence:
  assumes rng: "confidence_in_range s"
    and inv: "list_all confidence_ok (steps (rs_trace st))"
    and p: "process_step s i st = Some (fl, st')"
  shows "list_all confidence_ok (steps (rs_trace st'))"
proof (cases rule: should_run_cases[of s "rs_memory st"])
  case (raises e)
  with process_step_records[OF p] inv show ?thesis by simp
next
  case skips
  with process_step_records[OF p] inv show ?thesis
    by (simp add: record_skipped_def add_step_def skipped_trace_def confidence_ok_def)
next
  case True: runs
  show ?thesis
  proof (cases s)
    case (Gate g)
    with process_step_records[OF p] True inv show ?thesis by simp
  next
    case (Agent a)
    obtain out st2 where e: "execute_agent_step a st = (out, st2)"
      by (cases "execute_agent_step a st") auto
    show ?thesis
    proof (cases out)
      case (Inl err)
      with process_step_records[OF p] True Agent e inv show ?thesis by simp
    next
      case (Inr r)
      from execute_agent_step_effect[OF e] Inr obtain calls r0 where
        exs: "\<forall>c \<in> set calls. \<exists>m w m' w'. execute (agent a) (step_id a) m w = (c, m', w')"
        and ne: "calls \<noteq> []" and l: "last calls = Inr r0"
        and r: "r = r0 \<lparr> r_retry_count := int (length calls) - 1 \<rparr>"
        by auto
      from ne l have "Inr r0 \<in> set calls" by (metis last_in_set)
      with exs obtain m w m' w' where "execute (agent a) (step_id a) m w = (Inr r0, m', w')"
        by blast
      with rng Agent have "0 \<le> r_confidence r0 \<and> r_confidence r0 \<le> 1"
        unfolding confidence_in_range_def by (simp only: step.case)
      with r have "confidence_ok (step_trace_of a (rs_memory st) r)"
        by (simp add: confidence_ok_def step_trace_of_def)
      with process_step_records[OF p] True Agent e Inr inv show ?thesis by simp
    qed
  qed
qed

lemma execute_steps_confidence:
  assumes "list_all confidence_in_range ss"
    and "list_all confidence_ok (steps (rs_trace st))"
    and "execute_steps ss i st = Some (fl, st')"
  shows "list_all confidence_ok (steps (rs_trace st'))"
  using assms
proof (induction ss arbitrary: st)
  case Nil
  then show ?case by simp
next
  case (Cons s ss)
  from Cons.prems(3) obtain fl1 st1 where p: "process_step s i st = Some (fl1, st1)"
    by (auto split: option.splits)
  from Cons.prems(1) have "confidence_in_range s" by simp
  from process_step_confidence[OF this Cons.prems(2) p]
  have inv1: "list_all confidence_ok (steps (rs_trace st1))" .
  show ?case
  proof (cases fl1)
    case Next
    with Cons.prems(3) p have "execute_steps ss i st1 = Some (fl, st')" by simp
    from Cons.IH[OF _ inv1 this] Cons.prems(1) show ?thesis by simp
  next
    case (Return ws)
    with Cons.prems(3) p inv1 show ?thesis by simp
  next
    case (Raise e)
    with Cons.prems(3) p inv1 show ?thesis by simp
  qed
qed

text \<open>
  C1, as the code has it. The engine does not clamp: the record of a task step stores the
  confidence of the step's last result as it is. For every run that returns, the records
  of its trace are accounted for, in order, by the calls of \<open>execute\<close> that the run made:
  each record that is not a skipped one (those store 1) stands for a block of calls for
  its step, and its confidence is the one reported by the last call of the block, the
  terminal attempt. No call is left over but those of a step whose executor raised, which
  has no record and ends the run with the exception's message. So the records all have a
  confidence within \<open>[0, 1]\<close> provided the executors of the workflow only report such
  confidences.
\<close>

theorem stored_confidence_is_reported:
  assumes run: "run eng nm inp0 i w inp = Some (Inr (res, st))"
  shows "(\<exists>rest. unrecorded_calls (steps (res_trace res)) (exec_log st) = Some rest \<and>
            (rest = [] \<or>
             (\<exists>e. error (res_trace res) = Some e \<and> snd (last rest) = Inl (Exception e)))) \<and>
         (map_of eng nm = Some workflow \<and> list_all confidence_in_range (wf_steps workflow) \<longrightarrow>
            list_all confidence_ok (steps (res_trace res)))"
proof (intro conjI impI)
  show "\<exists>rest. unrecorded_calls (steps (res_trace res)) (exec_log st) = Some rest \<and>
            (rest = [] \<or>
             (\<exists>e. error (res_trace res) = Some e \<and> snd (last rest) = Inl (Exception e)))"
    by (rule run_accounts[OF run])
next
  assume "map_of eng nm = Some workflow \<and> list_all confidence_in_range (wf_steps workflow)"
  then have reg: "map_of eng nm = Some workflow"
    and rng: "list_all confidence_in_range (wf_steps workflow)" by simp_all
  have init: "list_all confidence_ok (steps (rs_trace (init_state nm inp0 w inp)))"
    by (simp add: init_state_def new_trace_def)
  have wf_inv: "list_all confidence_ok (steps (rs_trace st'))"
    if "execute_workflow workflow i (init_state nm inp0 w inp) = Some (out, st')" for out st'
  proof -
    from that obtain fl st1 where
      es: "execute_steps (wf_steps workflow) i (init_state nm inp0 w inp) = Some (fl, st1)"
      and eq: "steps (rs_trace st') = steps (rs_trace st1)"
      by (auto simp: execute_workflow_def trace_complete_def split: option.splits flow.splits)
    from execute_steps_confidence[OF rng init es] eq show ?thesis by simp
  qed
  from run show "list_all confidence_ok (steps (res_trace res))"
  proof (cases rule: run_result_cases)
    case (1 workflow' ws)
    with reg wf_inv[of "Inr ws" st] show ?thesis by (simp add: make_result_def)
  next
    case (2 workflow' e st1)
    with reg wf_inv[of "Inl (Exception e)" st1] show ?thesis
      by (simp add: make_result_def trace_complete_def)
  qed
qed

text \<open>The claim as stated fails: an executor that reports 1.5 gets 1.5 stored.\<close>

theorem confidence_counterexample:
  "map_option (map t_confidence \<circ> steps \<circ> res_trace)
     (result_of (run test_engine ''overconfident_workflow'' Map.empty False 0 (console []))) =
     Some [3 / 2] \<and> (1::real) < 3 / 2"
  by (simp add: engine_defs fixture_defs)

text \<open>
  On the executor that fails with confidence 1 and then completes with confidence 0.9, the
  record stores 0.9; with the first attempt's 1 in its place the calls would not account
  for the record.
\<close>

theorem stored_confidence_is_reported_witness:
  "map_of test_engine ''flaky_workflow'' = Some (workflow_of ''flaky_workflow'' [Agent flaky_step]) \<and>
   list_all confidence_in_range (wf_steps (workflow_of ''flaky_workflow'' [Agent flaky_step])) \<and>
   (\<exists>res st. run test_engine ''flaky_workflow'' Map.empty False 0 (console []) = Some (Inr (res, st)) \<and>
      unrecorded_calls (steps (res_trace res)) (exec_log st) = Some [] \<and>
      list_all confidence_ok (steps (res_trace res)) \<and>
      map t_confidence (steps (res_trace res)) = [9 / 10] \<and>
      map (map_sum id r_confidence \<circ> snd) (exec_log st) = [Inr 1, Inr (9 / 10)] \<and>
      unrecorded_calls (map (\<lambda>t. t \<lparr> t_confidence := 1 \<rparr>) (steps (res_trace res))) (exec_log st) = None)"
proof -
  have reg: "map_of test_engine ''flaky_workflow'' = Some (workflow_of ''flaky_workflow'' [Agent flaky_step])"
    by (simp add: fixture_defs register_def)
  have rng: "list_all confidence_in_range (wf_steps (workflow_of ''flaky_workflow'' [Agent flaky_step]))"
    by (simp add: confidence_in_range_def fixture_defs)
  obtain res st where
    run: "run test_engine ''flaky_workflow'' Map.empty False 0 (console []) = Some (Inr (res, st))"
    and err: "error (res_trace res) = None"
    and ev: "map t_confidence (steps (res_trace res)) = [9 / 10]"
      "map (map_sum id r_confidence \<circ> snd) (exec_log st) = [Inr 1, Inr (9 / 10)]"
    and mut: "unrecorded_calls (map (\<lambda>t. t \<lparr> t_confidence := 1 \<rparr>) (steps (res_trace res))) (exec_log st) = None"
    by (simp add: engine_defs fixture_defs upt_conv_Cons terminal_call_def not_completed_def)
  note t = stored_confidence_is_reported[OF run,
      where workflow = "workflow_of ''flaky_workflow'' [Agent flaky_step]"]
  from t err have a: "unrecorded_calls (steps (res_trace res)) (exec_log st) = Some []" by auto
  from t reg rng have b: "list_all confidence_ok (steps (res_trace res))" by blast
  have "\<exists>res st. run test_engine ''flaky_workflow'' Map.empty False 0 (console []) = Some (Inr (res, st)) \<and>
      unrecorded_calls (steps (res_trace res)) (exec_log st) = Some [] \<and>
      list_all confidence_ok (steps (res_trace res)) \<and>
      map t_confidence (steps (res_trace res)) = [9 / 10] \<and>
      map (map_sum id r_confidence \<circ> snd) (exec_log st) = [Inr 1, Inr (9 / 10)] \<and>
      unrecorded_calls (map (\<lambda>t. t \<lparr> t_confidence := 1 \<rparr>) (steps (res_trace res))) (exec_log st) = None"
    using run a b ev mut by (intro exI[of _ res] exI[of _ st] conjI)
  with reg rng show ?thesis by (intro conjI)
qed

end
